theory Spec2Isabelle
  imports Main "HOL-Library.Word"
begin

unbundle bit_operations_syntax

section \<open>Data model of the replayer (cli/fossilize\_replay.cpp)\<close>

text \<open>
  Hashes are 64-bit content identifiers, Vulkan object handles are 64-bit values with
  \<open>VK_NULL_HANDLE = 0\<close>. The C type \<open>unsigned\<close> is a 32-bit word, \<open>uint64_t\<close> a 64-bit
  word; both wrap around.
\<close>

type_synonym u8 = "8 word"
type_synonym u32 = "32 word"
type_synonym u64 = "64 word"
type_synonym Hash = "64 word"
type_synonym handle = "64 word"

definition VK_NULL_HANDLE :: handle where
  "VK_NULL_HANDLE = 0"

definition VK_UUID_SIZE :: nat where
  "VK_UUID_SIZE = 16"

definition VK_PIPELINE_CACHE_HEADER_VERSION_ONE :: u32 where
  "VK_PIPELINE_CACHE_HEADER_VERSION_ONE = 1"

datatype VkResult = VK_SUCCESS | VK_ERROR

datatype ResourceTag =
    RESOURCE_APPLICATION_INFO
  | RESOURCE_SAMPLER
  | RESOURCE_DESCRIPTOR_SET_LAYOUT
  | RESOURCE_PIPELINE_LAYOUT
  | RESOURCE_SHADER_MODULE
  | RESOURCE_RENDER_PASS
  | RESOURCE_GRAPHICS_PIPELINE
  | RESOURCE_COMPUTE_PIPELINE
  | RESOURCE_COUNT

datatype exit_code = EXIT_SUCCESS | EXIT_FAILURE

text \<open>
  What one call of a Vulkan create function does, as seen by the replayer: the result
  code, the handle the driver writes through the output pointer when it succeeds, and
  the time the call took on the steady clock, in nanoseconds. The driver is not part of
  the program, so every create call takes such a value as a parameter.
\<close>

record vk_create =
  vk_result :: VkResult
  vk_object :: handle
  vk_elapsed_ns :: u64

text \<open>
  The calls and log lines a run produces, in order: create and destroy calls of a
  category's API, an error line naming the hash of a failed create, the error line of a
  record whose parsing threw, creation of the pipeline cache with its initial data, and
  the notice that the on-disk cache was not accepted.
\<close>

datatype event =
    Create ResourceTag Hash vk_create
  | Destroy ResourceTag handle
  | LogE ResourceTag Hash
  | LogParseException ResourceTag Hash
  | CreatePipelineCache "u8 list" VkResult
  | LogCacheRejected

record Options =
  opt_pipeline_cache :: bool
  on_disk_pipeline_cache_path :: string
  num_threads :: u32
  opt_loop_count :: u32

text \<open>
  \<open>PipelineWorkItem\<close>. The descriptor pointer \<open>create_info\<close> and the caller's output
  pointer \<open>output\<close> (here \<open>output_ptr\<close>) are addresses (natural numbers); \<open>hash_map_entry\<close> points at the node
  of the category's \<open>unordered_map\<close> for a key, and the node never moves, so the key
  stands for the pointer.
\<close>

record PipelineWorkItem =
  hash :: Hash
  tag :: ResourceTag
  create_info :: nat
  output_ptr :: nat
  hash_map_entry :: Hash

text \<open>
  A worker thread is blocked at the head of its loop (or about to be), is inside the
  \<open>for\<close> loop of an item with loop counter \<open>i\<close>, or has left its loop after shutdown.
\<close>

datatype worker = Waiting | Working PipelineWorkItem u32 | Finished

text \<open>
  \<open>ThreadedReplayer\<close>, with two additions that stand for the world around it:
  \<open>output_slots\<close> is the caller's memory that output pointers point into, and \<open>trace\<close>
  records the Vulkan calls and log lines made so far.
\<close>

record ThreadedReplayer =
  opts :: Options
  filter_graphics :: "Hash set"
  filter_compute :: "Hash set"
  samplers :: "Hash \<rightharpoonup> handle"
  layouts :: "Hash \<rightharpoonup> handle"
  pipeline_layouts :: "Hash \<rightharpoonup> handle"
  shader_modules :: "Hash \<rightharpoonup> handle"
  render_passes :: "Hash \<rightharpoonup> handle"
  compute_pipelines :: "Hash \<rightharpoonup> handle"
  graphics_pipelines :: "Hash \<rightharpoonup> handle"
  pipeline_cache :: handle
  num_worker_threads :: u32
  loop_count :: u32
  queued_count :: u32
  completed_count :: u32
  thread_pool :: "worker list"
  pipeline_work_queue :: "PipelineWorkItem list"
  graphics_pipeline_ns :: u64
  compute_pipeline_ns :: u64
  shader_module_ns :: u64
  graphics_pipeline_count :: u32
  compute_pipeline_count :: u32
  shader_module_count :: u32
  shutting_down :: bool
  device_was_init :: bool
  output_slots :: "nat \<Rightarrow> handle"
  trace :: "event list"

text \<open>
  \<open>m[k]\<close> on an \<open>unordered_map\<close> inserts a value-initialised (null) entry when the key is
  absent; \<open>deref\<close> reads through a pointer to the node of a key.
\<close>

definition subscript :: "(Hash \<rightharpoonup> handle) \<Rightarrow> Hash \<Rightarrow> (Hash \<rightharpoonup> handle)" where
  "subscript m k = (case m k of None \<Rightarrow> m(k \<mapsto> VK_NULL_HANDLE) | Some v \<Rightarrow> m)"

definition deref :: "(Hash \<rightharpoonup> handle) \<Rightarrow> Hash \<Rightarrow> handle" where
  "deref m k = (case m k of None \<Rightarrow> VK_NULL_HANDLE | Some v \<Rightarrow> v)"

section \<open>Construction\<close>

text \<open>
  The constructor: counters and statistics start at zero, the registries are empty, and
  the pool gets \<open>num_worker_threads\<close> threads, each entering \<open>worker_thread\<close>.
\<close>

definition ThreadedReplayer_new :: "Options \<Rightarrow> Hash set \<Rightarrow> Hash set \<Rightarrow> ThreadedReplayer" where
  "ThreadedReplayer_new opts0 graphics compute =
    \<lparr> opts = opts0,
      filter_graphics = graphics,
      filter_compute = compute,
      samplers = Map.empty,
      layouts = Map.empty,
      pipeline_layouts = Map.empty,
      shader_modules = Map.empty,
      render_passes = Map.empty,
      compute_pipelines = Map.empty,
      graphics_pipelines = Map.empty,
      pipeline_cache = VK_NULL_HANDLE,
      num_worker_threads = num_threads opts0,
      loop_count = opt_loop_count opts0,
      queued_count = 0,
      completed_count = 0,
      thread_pool = replicate (unat (num_threads opts0)) Waiting,
      pipeline_work_queue = [],
      graphics_pipeline_ns = 0,
      compute_pipeline_ns = 0,
      shader_module_ns = 0,
      graphics_pipeline_count = 0,
      compute_pipeline_count = 0,
      shader_module_count = 0,
      shutting_down = False,
      device_was_init = False,
      output_slots = (\<lambda>_. VK_NULL_HANDLE),
      trace = [] \<rparr>"

section \<open>The pipeline-cache header\<close>

record VkPhysicalDeviceProperties =
  vendorID :: u32
  deviceID :: u32
  pipelineCacheUUID :: "u8 list"

definition read_le :: "u8 list \<Rightarrow> nat \<Rightarrow> u32" where
  "read_le blob offset =
     ucast (blob ! (offset + 0)) OR
     push_bit 8 (ucast (blob ! (offset + 1))) OR
     push_bit 16 (ucast (blob ! (offset + 2))) OR
     push_bit 24 (ucast (blob ! (offset + 3)))"

text \<open>
  \<open>validate_pipeline_cache_header\<close>. The device properties come from
  \<open>vkGetPhysicalDeviceProperties\<close>; \<open>memcmp\<close> compares \<open>VK_UUID_SIZE\<close> bytes from offset 16
  with the device's UUID array.
\<close>

definition validate_pipeline_cache_header :: "VkPhysicalDeviceProperties \<Rightarrow> u8 list \<Rightarrow> bool" where
  "validate_pipeline_cache_header props blob =
    (if length blob < 16 + VK_UUID_SIZE then False
     else if read_le blob 0 \<noteq> of_nat (16 + VK_UUID_SIZE) then False
     else if read_le blob 4 \<noteq> VK_PIPELINE_CACHE_HEADER_VERSION_ONE then False
     else if vendorID props \<noteq> read_le blob 8 then False
     else if deviceID props \<noteq> read_le blob 12 then False
     else if take VK_UUID_SIZE (pipelineCacheUUID props) \<noteq> take VK_UUID_SIZE (drop 16 blob) then False
     else True)"


text \<open>
  The on-disk cache file as \<open>set_application_info\<close> meets it: \<open>fopen\<close> fails, or the
  file is open. Then \<open>ftell\<close> gives a length (converted to \<open>size_t\<close>, so a failed \<open>ftell\<close>
  gives a huge one), \<open>on_disk_cache.resize\<close> to that length throws or does not, and
  \<open>fread\<close> delivers bytes of the file.
\<close>

datatype disk_file = FopenFailed | Opened nat bool "u8 list"

text \<open>
  The two ways of not returning: the call of \<open>exit\<close>, and an exception, which leaves the
  replayer as it is at the throw.
\<close>

datatype failure = Exit exit_code | Thrown ThreadedReplayer

text \<open>
  What \<open>set_application_info\<close> gets from outside the program: whether
  \<open>device.init_device\<close> succeeds, the properties of the device, the cache file, and the
  results of the first \<open>vkCreatePipelineCache\<close> call and of the retry with a blank cache.
\<close>

record app_env =
  init_device_ok :: bool
  device_props :: VkPhysicalDeviceProperties
  disk_cache :: disk_file
  create_cache :: vk_create
  create_blank_cache :: vk_create

text \<open>
  The block "Try to load on-disk cache": the initial data handed to the first create
  call. The vector has \<open>len\<close> zero bytes after \<open>resize\<close>, and \<open>fread\<close> overwrites as many as
  it reads, which is the number it returns. \<open>Inl\<close> is the exception of \<open>resize\<close>.
\<close>

definition load_on_disk_cache ::
  "app_env \<Rightarrow> ThreadedReplayer \<Rightarrow> failure + u8 list \<times> ThreadedReplayer" where
  "load_on_disk_cache env s =
    (if on_disk_pipeline_cache_path (opts s) \<noteq> [] then
       (case disk_cache env of
          FopenFailed \<Rightarrow> Inr ([], s)
        | Opened len resize_throws bytes \<Rightarrow>
            if len \<noteq> 0 then
              if resize_throws then Inl (Thrown s)
              else
                (let n = min len (length bytes);
                     on_disk_cache = take len bytes @ replicate (len - n) 0
                 in if n = len then
                      if validate_pipeline_cache_header (device_props env) on_disk_cache
                      then Inr (on_disk_cache, s)
                      else Inr ([], s\<lparr>trace := trace s @ [LogCacheRejected]\<rparr>)
                    else Inr ([], s))
            else Inr ([], s))
     else Inr ([], s))"

text \<open>
  \<open>set_application_info\<close>; \<open>Inl\<close> is the call of \<open>exit\<close>, or the exception that leaves the
  function from the block that loads the cache.
\<close>

definition set_application_info :: "app_env \<Rightarrow> ThreadedReplayer \<Rightarrow> failure + ThreadedReplayer" where
  "set_application_info env s =
    (if \<not> device_was_init s then
       (let s1 = s\<lparr>device_was_init := True\<rparr> in
        if \<not> init_device_ok env then Inl (Exit EXIT_FAILURE)
        else if opt_pipeline_cache (opts s1) then
          (case load_on_disk_cache env s1 of
             Inl e \<Rightarrow> Inl e
           | Inr (initial, s2) \<Rightarrow>
               (let s3 = s2\<lparr>trace := trace s2 @
                           [CreatePipelineCache initial (vk_result (create_cache env))]\<rparr>
                in if vk_result (create_cache env) \<noteq> VK_SUCCESS then
                     (let s4 = s3\<lparr>trace := trace s3 @
                                 [CreatePipelineCache [] (vk_result (create_blank_cache env))]\<rparr>
                      in if vk_result (create_blank_cache env) \<noteq> VK_SUCCESS
                         then Inr (s4\<lparr>pipeline_cache := VK_NULL_HANDLE\<rparr>)
                         else Inr (s4\<lparr>pipeline_cache := vk_object (create_blank_cache env)\<rparr>))
                   else Inr (s3\<lparr>pipeline_cache := vk_object (create_cache env)\<rparr>)))
        else Inr s1)
     else Inr s)"

section \<open>The enqueue operations\<close>

text \<open>
  The trivial categories create the object in the calling thread. The create function
  writes the handle through the output pointer when it succeeds; the registry entry is
  then read back from there.
\<close>

definition enqueue_create_sampler ::
  "Hash \<Rightarrow> nat \<Rightarrow> nat \<Rightarrow> vk_create \<Rightarrow> ThreadedReplayer \<Rightarrow> bool \<times> ThreadedReplayer" where
  "enqueue_create_sampler index info sampler r s =
    (let s1 = s\<lparr>trace := trace s @ [Create RESOURCE_SAMPLER index r]\<rparr> in
     if vk_result r \<noteq> VK_SUCCESS
     then (False, s1\<lparr>trace := trace s1 @ [LogE RESOURCE_SAMPLER index]\<rparr>)
     else (let s2 = s1\<lparr>output_slots := (output_slots s1)(sampler := vk_object r)\<rparr>
           in (True, s2\<lparr>samplers := (samplers s2)(index \<mapsto> output_slots s2 sampler)\<rparr>)))"

definition enqueue_create_descriptor_set_layout ::
  "Hash \<Rightarrow> nat \<Rightarrow> nat \<Rightarrow> vk_create \<Rightarrow> ThreadedReplayer \<Rightarrow> bool \<times> ThreadedReplayer" where
  "enqueue_create_descriptor_set_layout index info layout r s =
    (let s1 = s\<lparr>trace := trace s @ [Create RESOURCE_DESCRIPTOR_SET_LAYOUT index r]\<rparr> in
     if vk_result r \<noteq> VK_SUCCESS
     then (False, s1\<lparr>trace := trace s1 @ [LogE RESOURCE_DESCRIPTOR_SET_LAYOUT index]\<rparr>)
     else (let s2 = s1\<lparr>output_slots := (output_slots s1)(layout := vk_object r)\<rparr>
           in (True, s2\<lparr>layouts := (layouts s2)(index \<mapsto> output_slots s2 layout)\<rparr>)))"

definition enqueue_create_pipeline_layout ::
  "Hash \<Rightarrow> nat \<Rightarrow> nat \<Rightarrow> vk_create \<Rightarrow> ThreadedReplayer \<Rightarrow> bool \<times> ThreadedReplayer" where
  "enqueue_create_pipeline_layout index info layout r s =
    (let s1 = s\<lparr>trace := trace s @ [Create RESOURCE_PIPELINE_LAYOUT index r]\<rparr> in
     if vk_result r \<noteq> VK_SUCCESS
     then (False, s1\<lparr>trace := trace s1 @ [LogE RESOURCE_PIPELINE_LAYOUT index]\<rparr>)
     else (let s2 = s1\<lparr>output_slots := (output_slots s1)(layout := vk_object r)\<rparr>
           in (True, s2\<lparr>pipeline_layouts := (pipeline_layouts s2)(index \<mapsto> output_slots s2 layout)\<rparr>)))"

definition enqueue_create_render_pass ::
  "Hash \<Rightarrow> nat \<Rightarrow> nat \<Rightarrow> vk_create \<Rightarrow> ThreadedReplayer \<Rightarrow> bool \<times> ThreadedReplayer" where
  "enqueue_create_render_pass index info render_pass r s =
    (let s1 = s\<lparr>trace := trace s @ [Create RESOURCE_RENDER_PASS index r]\<rparr> in
     if vk_result r \<noteq> VK_SUCCESS
     then (False, s1\<lparr>trace := trace s1 @ [LogE RESOURCE_RENDER_PASS index]\<rparr>)
     else (let s2 = s1\<lparr>output_slots := (output_slots s1)(render_pass := vk_object r)\<rparr>
           in (True, s2\<lparr>render_passes := (render_passes s2)(index \<mapsto> output_slots s2 render_pass)\<rparr>)))"

text \<open>
  The deferred categories build a work item, take the address of the registry entry
  (which inserts a null entry for a new key) and push the item under the queue mutex.
\<close>

definition enqueue_create_shader_module ::
  "Hash \<Rightarrow> nat \<Rightarrow> nat \<Rightarrow> ThreadedReplayer \<Rightarrow> bool \<times> ThreadedReplayer" where
  "enqueue_create_shader_module h info module s =
    (let work_item = \<lparr>hash = h, tag = RESOURCE_SHADER_MODULE, create_info = info,
                       output_ptr = module, hash_map_entry = h\<rparr>;
         s1 = s\<lparr>shader_modules := subscript (shader_modules s) h\<rparr>
     in (True, s1\<lparr>pipeline_work_queue := pipeline_work_queue s1 @ [work_item],
                   queued_count := queued_count s1 + 1\<rparr>))"

definition enqueue_create_compute_pipeline ::
  "Hash \<Rightarrow> nat \<Rightarrow> nat \<Rightarrow> ThreadedReplayer \<Rightarrow> bool \<times> ThreadedReplayer" where
  "enqueue_create_compute_pipeline h info pipeline s =
    (if (filter_compute s = {} \<and> filter_graphics s = {}) \<or> h \<in> filter_compute s then
       (let work_item = \<lparr>hash = h, tag = RESOURCE_COMPUTE_PIPELINE, create_info = info,
                          output_ptr = pipeline, hash_map_entry = h\<rparr>;
            s1 = s\<lparr>compute_pipelines := subscript (compute_pipelines s) h\<rparr>
        in (True, s1\<lparr>pipeline_work_queue := pipeline_work_queue s1 @ [work_item],
                      queued_count := queued_count s1 + 1\<rparr>))
     else (True, s\<lparr>output_slots := (output_slots s)(pipeline := VK_NULL_HANDLE)\<rparr>))"

definition enqueue_create_graphics_pipeline ::
  "Hash \<Rightarrow> nat \<Rightarrow> nat \<Rightarrow> ThreadedReplayer \<Rightarrow> bool \<times> ThreadedReplayer" where
  "enqueue_create_graphics_pipeline h info pipeline s =
    (if (filter_graphics s = {} \<and> filter_compute s = {}) \<or> h \<in> filter_graphics s then
       (let work_item = \<lparr>hash = h, tag = RESOURCE_GRAPHICS_PIPELINE, create_info = info,
                          output_ptr = pipeline, hash_map_entry = h\<rparr>;
            s1 = s\<lparr>graphics_pipelines := subscript (graphics_pipelines s) h\<rparr>
        in (True, s1\<lparr>pipeline_work_queue := pipeline_work_queue s1 @ [work_item],
                      queued_count := queued_count s1 + 1\<rparr>))
     else (True, s\<lparr>output_slots := (output_slots s)(pipeline := VK_NULL_HANDLE)\<rparr>))"


section \<open>The worker thread\<close>

text \<open>
  One pass through the body of the \<open>for\<close> loop of \<open>worker_thread\<close>, for each of the
  three cases of the \<open>switch\<close>. A failed create leaves the output slot as it was.
\<close>

definition shader_module_iteration ::
  "PipelineWorkItem \<Rightarrow> vk_create \<Rightarrow> ThreadedReplayer \<Rightarrow> ThreadedReplayer" where
  "shader_module_iteration work_item r s =
    (let old = deref (shader_modules s) (hash_map_entry work_item);
         s1 = (if old \<noteq> VK_NULL_HANDLE
               then s\<lparr>trace := trace s @ [Destroy RESOURCE_SHADER_MODULE old]\<rparr> else s);
         s2 = s1\<lparr>shader_modules := (shader_modules s1)(hash_map_entry work_item \<mapsto> VK_NULL_HANDLE)\<rparr>;
         s3 = s2\<lparr>trace := trace s2 @ [Create RESOURCE_SHADER_MODULE (hash work_item) r]\<rparr>
     in if vk_result r = VK_SUCCESS then
          (let s4 = s3\<lparr>output_slots := (output_slots s3)(output_ptr work_item := vk_object r)\<rparr>;
               s5 = s4\<lparr>shader_module_ns := shader_module_ns s4 + vk_elapsed_ns r\<rparr>;
               s6 = s5\<lparr>shader_module_count := shader_module_count s5 + 1\<rparr>
           in s6\<lparr>shader_modules := (shader_modules s6)(hash_map_entry work_item \<mapsto>
                      output_slots s6 (output_ptr work_item))\<rparr>)
        else s3\<lparr>trace := trace s3 @ [LogE RESOURCE_SHADER_MODULE (hash work_item)]\<rparr>)"

definition graphics_pipeline_iteration ::
  "PipelineWorkItem \<Rightarrow> vk_create \<Rightarrow> ThreadedReplayer \<Rightarrow> ThreadedReplayer" where
  "graphics_pipeline_iteration work_item r s =
    (let old = deref (graphics_pipelines s) (hash_map_entry work_item);
         s1 = (if old \<noteq> VK_NULL_HANDLE
               then s\<lparr>trace := trace s @ [Destroy RESOURCE_GRAPHICS_PIPELINE old]\<rparr> else s);
         s2 = s1\<lparr>graphics_pipelines := (graphics_pipelines s1)(hash_map_entry work_item \<mapsto> VK_NULL_HANDLE)\<rparr>;
         s3 = s2\<lparr>trace := trace s2 @ [Create RESOURCE_GRAPHICS_PIPELINE (hash work_item) r]\<rparr>
     in if vk_result r = VK_SUCCESS then
          (let s4 = s3\<lparr>output_slots := (output_slots s3)(output_ptr work_item := vk_object r)\<rparr>;
               s5 = s4\<lparr>graphics_pipeline_ns := graphics_pipeline_ns s4 + vk_elapsed_ns r\<rparr>;
               s6 = s5\<lparr>graphics_pipeline_count := graphics_pipeline_count s5 + 1\<rparr>
           in s6\<lparr>graphics_pipelines := (graphics_pipelines s6)(hash_map_entry work_item \<mapsto>
                      output_slots s6 (output_ptr work_item))\<rparr>)
        else s3\<lparr>trace := trace s3 @ [LogE RESOURCE_GRAPHICS_PIPELINE (hash work_item)]\<rparr>)"

definition compute_pipeline_iteration ::
  "PipelineWorkItem \<Rightarrow> vk_create \<Rightarrow> ThreadedReplayer \<Rightarrow> ThreadedReplayer" where
  "compute_pipeline_iteration work_item r s =
    (let old = deref (compute_pipelines s) (hash_map_entry work_item);
         s1 = (if old \<noteq> VK_NULL_HANDLE
               then s\<lparr>trace := trace s @ [Destroy RESOURCE_COMPUTE_PIPELINE old]\<rparr> else s);
         s2 = s1\<lparr>compute_pipelines := (compute_pipelines s1)(hash_map_entry work_item \<mapsto> VK_NULL_HANDLE)\<rparr>;
         s3 = s2\<lparr>trace := trace s2 @ [Create RESOURCE_COMPUTE_PIPELINE (hash work_item) r]\<rparr>
     in if vk_result r = VK_SUCCESS then
          (let s4 = s3\<lparr>output_slots := (output_slots s3)(output_ptr work_item := vk_object r)\<rparr>;
               s5 = s4\<lparr>compute_pipeline_ns := compute_pipeline_ns s4 + vk_elapsed_ns r\<rparr>;
               s6 = s5\<lparr>compute_pipeline_count := compute_pipeline_count s5 + 1\<rparr>
           in s6\<lparr>compute_pipelines := (compute_pipelines s6)(hash_map_entry work_item \<mapsto>
                      output_slots s6 (output_ptr work_item))\<rparr>)
        else s3\<lparr>trace := trace s3 @ [LogE RESOURCE_COMPUTE_PIPELINE (hash work_item)]\<rparr>)"

text \<open>The \<open>switch\<close> on the item's tag: which cases have a loop, and the loop body.\<close>

definition has_loop :: "ResourceTag \<Rightarrow> bool" where
  "has_loop t = (t = RESOURCE_SHADER_MODULE \<or> t = RESOURCE_GRAPHICS_PIPELINE \<or> t = RESOURCE_COMPUTE_PIPELINE)"

definition loop_body ::
  "PipelineWorkItem \<Rightarrow> vk_create \<Rightarrow> ThreadedReplayer \<Rightarrow> ThreadedReplayer" where
  "loop_body work_item r s =
    (case tag work_item of
       RESOURCE_SHADER_MODULE \<Rightarrow> shader_module_iteration work_item r s
     | RESOURCE_GRAPHICS_PIPELINE \<Rightarrow> graphics_pipeline_iteration work_item r s
     | RESOURCE_COMPUTE_PIPELINE \<Rightarrow> compute_pipeline_iteration work_item r s
     | _ \<Rightarrow> s)"

text \<open>
  The whole \<open>switch\<close> for one item, run by one worker: \<open>for (i = 0; i < loop_count; i++)\<close>,
  where \<open>driver i\<close> is what the \<open>i\<close>-th create call does.
\<close>

definition process_work_item ::
  "PipelineWorkItem \<Rightarrow> (nat \<Rightarrow> vk_create) \<Rightarrow> ThreadedReplayer \<Rightarrow> ThreadedReplayer" where
  "process_work_item work_item driver s =
    (if has_loop (tag work_item)
     then foldl (\<lambda>s' i. loop_body work_item (driver i) s') s [0..<unat (loop_count s)]
     else s)"

text \<open>The block after the \<open>switch\<close>, under the queue mutex.\<close>

definition mark_completed :: "ThreadedReplayer \<Rightarrow> ThreadedReplayer" where
  "mark_completed s = s\<lparr>completed_count := completed_count s + 1\<rparr>"

text \<open>
  After the loop of \<open>worker_thread\<close> the thread adds its local counters to the
  statistics. No statement of the loop writes the locals, so each is still zero.
\<close>

definition worker_exit :: "ThreadedReplayer \<Rightarrow> ThreadedReplayer" where
  "worker_exit s =
     s\<lparr>graphics_pipeline_count := graphics_pipeline_count s + 0,
       graphics_pipeline_ns := graphics_pipeline_ns s + 0,
       compute_pipeline_count := compute_pipeline_count s + 0,
       compute_pipeline_ns := compute_pipeline_ns s + 0,
       shader_module_count := shader_module_count s + 0,
       shader_module_ns := shader_module_ns s + 0\<rparr>"

text \<open>
  One step of worker \<open>w\<close>, atomic with respect to the other threads: leaving the wait
  at the head of the loop (to exit on shutdown, or with the item at the front of the
  queue), one pass through the \<open>for\<close> loop of the item it holds, or marking the item
  completed once the loop is over. \<open>None\<close>: the worker cannot move (it waits on an empty
  queue, or has finished).
\<close>

definition worker_step :: "nat \<Rightarrow> vk_create \<Rightarrow> ThreadedReplayer \<Rightarrow> ThreadedReplayer option" where
  "worker_step w r s =
    (if w < length (thread_pool s) then
       (case thread_pool s ! w of
          Waiting \<Rightarrow>
            if shutting_down s
            then Some ((worker_exit s)\<lparr>thread_pool := (thread_pool s)[w := Finished]\<rparr>)
            else (case pipeline_work_queue s of
                    [] \<Rightarrow> None
                  | work_item # rest \<Rightarrow>
                      Some (s\<lparr>pipeline_work_queue := rest,
                              thread_pool := (thread_pool s)[w := Working work_item 0]\<rparr>))
        | Working work_item i \<Rightarrow>
            if has_loop (tag work_item) \<and> i < loop_count s
            then Some ((loop_body work_item r s)\<lparr>thread_pool := (thread_pool s)[w := Working work_item (i + 1)]\<rparr>)
            else Some ((mark_completed s)\<lparr>thread_pool := (thread_pool s)[w := Waiting]\<rparr>)
        | Finished \<Rightarrow> None)
     else None)"

section \<open>The main thread\<close>

text \<open>
  What \<open>StateReplayer::parse\<close> does with the blob of a record: it throws, or it calls
  the replayer with a descriptor and an output pointer.
\<close>

datatype parse = ParseThrows | ParseCalls nat nat

text \<open>
  Modelled from the spec: \<open>StateReplayer::parse\<close> (fossilize.hpp and its implementation
  are not among the sources). For a record of a category it calls the enqueue operation
  of that category with the record's hash, and \<open>set_application_info\<close> for the
  application-info record. \<open>Inl\<close> is what \<open>set_application_info\<close> does instead of
  returning: the call of \<open>exit\<close>, or an exception.
\<close>

definition replay_record ::
  "ResourceTag \<Rightarrow> Hash \<Rightarrow> nat \<Rightarrow> nat \<Rightarrow> app_env \<Rightarrow> vk_create \<Rightarrow> ThreadedReplayer
     \<Rightarrow> failure + bool \<times> ThreadedReplayer" where
  "replay_record t h info out env r s =
    (case t of
       RESOURCE_APPLICATION_INFO \<Rightarrow>
         (case set_application_info env s of Inl e \<Rightarrow> Inl e | Inr s' \<Rightarrow> Inr (True, s'))
     | RESOURCE_SAMPLER \<Rightarrow> Inr (enqueue_create_sampler h info out r s)
     | RESOURCE_DESCRIPTOR_SET_LAYOUT \<Rightarrow> Inr (enqueue_create_descriptor_set_layout h info out r s)
     | RESOURCE_PIPELINE_LAYOUT \<Rightarrow> Inr (enqueue_create_pipeline_layout h info out r s)
     | RESOURCE_SHADER_MODULE \<Rightarrow> Inr (enqueue_create_shader_module h info out s)
     | RESOURCE_RENDER_PASS \<Rightarrow> Inr (enqueue_create_render_pass h info out r s)
     | RESOURCE_GRAPHICS_PIPELINE \<Rightarrow> Inr (enqueue_create_graphics_pipeline h info out s)
     | RESOURCE_COMPUTE_PIPELINE \<Rightarrow> Inr (enqueue_create_compute_pipeline h info out s)
     | RESOURCE_COUNT \<Rightarrow> Inr (True, s))"

text \<open>
  The archive as \<open>main\<close> reads it: per category, \<open>get_hash_list_for_resource_tag\<close>
  fails or gives the hashes, and for each hash \<open>read_entry\<close> fails or gives a blob, which
  is known here by what parsing it does.
\<close>

datatype read_result = ReadFailed | Blob parse
datatype hash_list = HashListFailed | HashList "(Hash \<times> read_result) list"
type_synonym archive = "ResourceTag \<Rightarrow> hash_list"

text \<open>
  The steps of the main thread after the replayer is constructed: parsing one record,
  a call of \<open>sync_worker_threads\<close>, reading the statistics for the report, and leaving
  \<open>main\<close> with an exit code (which runs the destructor).
\<close>

datatype driver_action = Parse ResourceTag Hash parse | Sync | Report | Return exit_code

definition playback_order :: "ResourceTag list" where
  "playback_order =
    [RESOURCE_APPLICATION_INFO, RESOURCE_SHADER_MODULE, RESOURCE_SAMPLER,
     RESOURCE_DESCRIPTOR_SET_LAYOUT, RESOURCE_PIPELINE_LAYOUT, RESOURCE_RENDER_PASS,
     RESOURCE_GRAPHICS_PIPELINE, RESOURCE_COMPUTE_PIPELINE]"

text \<open>
  The inner loop over the hashes of one category: the actions it performs, and whether
  it ran to its end (a failed \<open>read_entry\<close> leaves \<open>main\<close>).
\<close>

fun play_entries :: "ResourceTag \<Rightarrow> (Hash \<times> read_result) list \<Rightarrow> driver_action list \<times> bool" where
  "play_entries t [] = ([], True)"
| "play_entries t ((h, ReadFailed) # es) = ([Return EXIT_FAILURE], False)"
| "play_entries t ((h, Blob p) # es) =
     (case play_entries t es of (acts, ok) \<Rightarrow> (Parse t h p # acts, ok))"

text \<open>The outer loop over \<open>playback_order\<close>, and what follows it in \<open>main\<close>.\<close>

fun play_tags :: "archive \<Rightarrow> ResourceTag list \<Rightarrow> driver_action list" where
  "play_tags a [] = [Sync, Report, Return EXIT_SUCCESS]"
| "play_tags a (t # ts) =
     (case a t of
        HashListFailed \<Rightarrow> [Return EXIT_FAILURE]
      | HashList es \<Rightarrow>
          (case play_entries t es of
             (acts, False) \<Rightarrow> acts
           | (acts, True) \<Rightarrow>
               acts @ (if t = RESOURCE_RENDER_PASS then [Sync] else []) @ play_tags a ts))"

text \<open>
  A process: what the main thread still has to do, and the replayer with its worker
  threads.
\<close>

type_synonym process = "driver_action list \<times> ThreadedReplayer"

text \<open>
  One step of the main thread. A record whose parsing throws is logged and skipped, and
  so is one for which the replayer throws; the result of an enqueue operation is not
  looked at. \<open>sync_worker_threads\<close> returns only when the two counters are equal.
  Leaving \<open>main\<close> sets \<open>shutting_down\<close> in the destructor. \<open>None\<close>: the thread cannot
  move, or the process ends in \<open>exit\<close>.
\<close>

fun driver_step :: "app_env \<Rightarrow> vk_create \<Rightarrow> process \<Rightarrow> process option" where
  "driver_step env r ([], s) = None"
| "driver_step env r (Parse t h ParseThrows # rest, s) =
     Some (rest, s\<lparr>trace := trace s @ [LogParseException t h]\<rparr>)"
| "driver_step env r (Parse t h (ParseCalls info out) # rest, s) =
     (case replay_record t h info out env r s of
        Inl (Exit e) \<Rightarrow> None
      | Inl (Thrown s') \<Rightarrow> Some (rest, s'\<lparr>trace := trace s' @ [LogParseException t h]\<rparr>)
      | Inr (ok, s') \<Rightarrow> Some (rest, s'))"
| "driver_step env r (Sync # rest, s) =
     (if queued_count s = completed_count s then Some (rest, s) else None)"
| "driver_step env r (Report # rest, s) = Some (rest, s)"
| "driver_step env r (Return e # rest, s) = Some ([], s\<lparr>shutting_down := True\<rparr>)"

text \<open>The threads interleave: a step of the process is a step of one of them.\<close>

inductive step :: "process \<Rightarrow> process \<Rightarrow> bool" where
  main_thread: "driver_step env r p = Some p' \<Longrightarrow> step p p'"
| worker_thread: "worker_step w r s = Some s' \<Longrightarrow> step (d, s) (d, s')"

inductive reachable :: "process \<Rightarrow> process \<Rightarrow> bool" for p0 :: process where
  start: "reachable p0 p0"
| next_step: "reachable p0 p \<Longrightarrow> step p p' \<Longrightarrow> reachable p0 p'"

section \<open>The start of main\<close>

text \<open>
  The callbacks \<open>main\<close> registers with the command-line parser. \<open>CLIParser\<close> is not among
  the sources: an invocation is given by the callbacks \<open>parse\<close> runs, in order, and by
  what \<open>parse\<close> returns. \<open>next_uint\<close> gives an \<open>unsigned\<close>.
\<close>

datatype cli_call =
    CliHelp
  | CliDeviceIndex u32
  | CliEnableValidation
  | CliPipelineCache
  | CliOnDiskPipelineCache string
  | CliFilterCompute u32
  | CliFilterGraphics u32
  | CliNumThreads u32
  | CliLoop u32
  | CliDefault string

record main_locals =
  json_path :: string
  replayer_opts :: Options
  main_filter_graphics :: "Hash set"
  main_filter_compute :: "Hash set"
  is_ended_state :: bool

definition initial_locals :: "u32 \<Rightarrow> main_locals" where
  "initial_locals hardware_concurrency =
    \<lparr> json_path = [],
      replayer_opts = \<lparr> opt_pipeline_cache = False, on_disk_pipeline_cache_path = [],
                        num_threads = hardware_concurrency, opt_loop_count = 1 \<rparr>,
      main_filter_graphics = {},
      main_filter_compute = {},
      is_ended_state = False \<rparr>"

text \<open>
  The device index and the validation switch go to the device options, which the
  replayer only hands on; they change nothing here.
\<close>

fun cli_callback :: "main_locals \<Rightarrow> cli_call \<Rightarrow> main_locals" where
  "cli_callback l CliHelp = l\<lparr>is_ended_state := True\<rparr>"
| "cli_callback l (CliDeviceIndex n) = l"
| "cli_callback l CliEnableValidation = l"
| "cli_callback l CliPipelineCache =
     l\<lparr>replayer_opts := (replayer_opts l)\<lparr>opt_pipeline_cache := True\<rparr>\<rparr>"
| "cli_callback l (CliOnDiskPipelineCache path) =
     l\<lparr>replayer_opts := (replayer_opts l)\<lparr>on_disk_pipeline_cache_path := path\<rparr>\<rparr>"
| "cli_callback l (CliFilterCompute n) =
     l\<lparr>main_filter_compute := insert (ucast n) (main_filter_compute l)\<rparr>"
| "cli_callback l (CliFilterGraphics n) =
     l\<lparr>main_filter_graphics := insert (ucast n) (main_filter_graphics l)\<rparr>"
| "cli_callback l (CliNumThreads n) =
     l\<lparr>replayer_opts := (replayer_opts l)\<lparr>num_threads := n\<rparr>\<rparr>"
| "cli_callback l (CliLoop n) =
     l\<lparr>replayer_opts := (replayer_opts l)\<lparr>opt_loop_count := n\<rparr>\<rparr>"
| "cli_callback l (CliDefault arg) = l\<lparr>json_path := arg\<rparr>"

record invocation =
  hardware_concurrency :: u32
  cli_calls :: "cli_call list"
  cli_parse_ok :: bool
  prepare_ok :: bool
  the_archive :: archive

text \<open>
  \<open>main\<close> up to the point where the main loop starts: \<open>Inl\<close> is a return before the
  replayer exists, \<open>Inr\<close> the process with the replayer just constructed.
\<close>

definition main_start :: "invocation \<Rightarrow> exit_code + process" where
  "main_start invoc =
    (let l = foldl cli_callback (initial_locals (hardware_concurrency invoc)) (cli_calls invoc) in
     if \<not> cli_parse_ok invoc then Inl EXIT_FAILURE
     else if is_ended_state l then Inl EXIT_SUCCESS
     else if json_path l = [] then Inl EXIT_FAILURE
     else
       (let o1 = (if num_threads (replayer_opts l) < 1
                  then (replayer_opts l)\<lparr>num_threads := 1\<rparr> else replayer_opts l);
            o2 = (if on_disk_pipeline_cache_path o1 \<noteq> []
                  then o1\<lparr>opt_pipeline_cache := True\<rparr> else o1);
            replayer = ThreadedReplayer_new o2 (main_filter_graphics l) (main_filter_compute l)
        in Inr (if \<not> prepare_ok invoc then [Return EXIT_FAILURE]
                else play_tags (the_archive invoc) playback_order, replayer)))"

text \<open>The number of worker threads an invocation creates.\<close>

definition threads_created :: "invocation \<Rightarrow> nat" where
  "threads_created invoc =
    (case main_start invoc of Inl e \<Rightarrow> 0 | Inr p \<Rightarrow> length (thread_pool (snd p)))"


section \<open>Notions of the specification\<close>

text \<open>
  The header format as the specification words it: the value of the little-endian
  32-bit field at an offset, and a header whose fields match the device.
\<close>

definition le_u32_value :: "u8 list \<Rightarrow> nat \<Rightarrow> nat" where
  "le_u32_value blob off =
     unat (blob ! off) + 256 * unat (blob ! (off + 1)) + 65536 * unat (blob ! (off + 2))
       + 16777216 * unat (blob ! (off + 3))"

definition header_matches_device :: "VkPhysicalDeviceProperties \<Rightarrow> u8 list \<Rightarrow> bool" where
  "header_matches_device props blob =
    (16 + VK_UUID_SIZE \<le> length blob \<and>
     le_u32_value blob 0 = 16 + VK_UUID_SIZE \<and>
     le_u32_value blob 4 = 1 \<and>
     le_u32_value blob 8 = unat (vendorID props) \<and>
     le_u32_value blob 12 = unat (deviceID props) \<and>
     take VK_UUID_SIZE (drop 16 blob) = pipelineCacheUUID props)"

text \<open>The categories created in the calling thread, and those handed to the workers.\<close>

definition trivial_category :: "ResourceTag \<Rightarrow> bool" where
  "trivial_category t =
    (t = RESOURCE_SAMPLER \<or> t = RESOURCE_DESCRIPTOR_SET_LAYOUT \<or>
     t = RESOURCE_PIPELINE_LAYOUT \<or> t = RESOURCE_RENDER_PASS)"

text \<open>The work item an enqueue operation of a deferred category builds.\<close>

definition work_item_for :: "ResourceTag \<Rightarrow> Hash \<Rightarrow> nat \<Rightarrow> nat \<Rightarrow> PipelineWorkItem" where
  "work_item_for t h info out =
     \<lparr>hash = h, tag = t, create_info = info, output_ptr = out, hash_map_entry = h\<rparr>"

text \<open>The filter predicates of the specification.\<close>

definition graphics_filter_passes :: "ThreadedReplayer \<Rightarrow> Hash \<Rightarrow> bool" where
  "graphics_filter_passes s h =
     ((filter_graphics s = {} \<and> filter_compute s = {}) \<or> h \<in> filter_graphics s)"

definition compute_filter_passes :: "ThreadedReplayer \<Rightarrow> Hash \<Rightarrow> bool" where
  "compute_filter_passes s h =
     ((filter_graphics s = {} \<and> filter_compute s = {}) \<or> h \<in> filter_compute s)"

text \<open>
  The thread count an invocation configures: the value of the last \<open>--num-threads\<close>, or
  the default it starts with.
\<close>

fun configured_num_threads :: "u32 \<Rightarrow> cli_call list \<Rightarrow> u32" where
  "configured_num_threads n [] = n"
| "configured_num_threads n (CliNumThreads m # calls) = configured_num_threads m calls"
| "configured_num_threads n (c # calls) = configured_num_threads n calls"

text \<open>The registry of a category.\<close>

definition registry :: "ResourceTag \<Rightarrow> ThreadedReplayer \<Rightarrow> (Hash \<rightharpoonup> handle)" where
  "registry t s =
    (case t of
       RESOURCE_SAMPLER \<Rightarrow> samplers s
     | RESOURCE_DESCRIPTOR_SET_LAYOUT \<Rightarrow> layouts s
     | RESOURCE_PIPELINE_LAYOUT \<Rightarrow> pipeline_layouts s
     | RESOURCE_SHADER_MODULE \<Rightarrow> shader_modules s
     | RESOURCE_RENDER_PASS \<Rightarrow> render_passes s
     | RESOURCE_GRAPHICS_PIPELINE \<Rightarrow> graphics_pipelines s
     | RESOURCE_COMPUTE_PIPELINE \<Rightarrow> compute_pipelines s
     | _ \<Rightarrow> Map.empty)"

text \<open>
  Counting in a trace: the create calls of a category for a hash, and the destroy calls
  of a category. \<open>events_since s s'\<close> are the events of \<open>s'\<close> that came after those of \<open>s\<close>.
\<close>

fun is_create :: "ResourceTag \<Rightarrow> Hash \<Rightarrow> event \<Rightarrow> bool" where
  "is_create t h (Create t' h' r) = (t' = t \<and> h' = h)"
| "is_create t h e = False"

fun is_destroy :: "ResourceTag \<Rightarrow> event \<Rightarrow> bool" where
  "is_destroy t (Destroy t' x) = (t' = t)"
| "is_destroy t e = False"

definition create_calls :: "ResourceTag \<Rightarrow> Hash \<Rightarrow> event list \<Rightarrow> nat" where
  "create_calls t h evs = length (filter (is_create t h) evs)"

definition destroy_calls :: "ResourceTag \<Rightarrow> event list \<Rightarrow> nat" where
  "destroy_calls t evs = length (filter (is_destroy t) evs)"

definition events_since :: "ThreadedReplayer \<Rightarrow> ThreadedReplayer \<Rightarrow> event list" where
  "events_since s s' = drop (length (trace s)) (trace s')"

text \<open>A create call that succeeds hands back a handle, which is not the null handle.\<close>

definition create_succeeds :: "vk_create \<Rightarrow> bool" where
  "create_succeeds r = (vk_result r = VK_SUCCESS \<and> vk_object r \<noteq> VK_NULL_HANDLE)"

text \<open>
  Work that is queued or in the hands of a worker, and the actions of the main thread
  that push a work item: parsing a shader-module record, or a pipeline record whose hash
  passes the filter of the replayer.
\<close>

fun is_working :: "worker \<Rightarrow> bool" where
  "is_working (Working work_item i) = True"
| "is_working w = False"

definition outstanding :: "ThreadedReplayer \<Rightarrow> nat" where
  "outstanding s = length (pipeline_work_queue s) + length (filter is_working (thread_pool s))"

fun is_push_action :: "ThreadedReplayer \<Rightarrow> driver_action \<Rightarrow> bool" where
  "is_push_action s (Parse t h (ParseCalls info out)) =
     (t = RESOURCE_SHADER_MODULE \<or>
      (t = RESOURCE_GRAPHICS_PIPELINE \<and> graphics_filter_passes s h) \<or>
      (t = RESOURCE_COMPUTE_PIPELINE \<and> compute_filter_passes s h))"
| "is_push_action s a = False"

definition pending_pushes :: "ThreadedReplayer \<Rightarrow> driver_action list \<Rightarrow> nat" where
  "pending_pushes s d = length (filter (is_push_action s) d)"

text \<open>
  A push is the only step that writes \<open>queued_count\<close>: a step without a push is one
  that leaves it as it is.
\<close>

definition no_push_step :: "process \<Rightarrow> process \<Rightarrow> bool" where
  "no_push_step p p' = (step p p' \<and> queued_count (snd p') = queued_count (snd p))"

text \<open>
  In a trace: the create calls of a category that returned success, their number, and
  the sum of the times they took.
\<close>

fun is_success :: "ResourceTag \<Rightarrow> event \<Rightarrow> bool" where
  "is_success t (Create t' h r) = (t' = t \<and> vk_result r = VK_SUCCESS)"
| "is_success t e = False"


definition successful_creates :: "ResourceTag \<Rightarrow> event list \<Rightarrow> nat" where
  "successful_creates t evs = length (filter (is_success t) evs)"




text \<open>
  The category whose record an action of the main thread parses, and scripts of the main
  thread in which no pipeline record is parsed before the first call of
  \<open>sync_worker_threads\<close> and no shader-module record after it.
\<close>

fun parse_tag :: "driver_action \<Rightarrow> ResourceTag option" where
  "parse_tag (Parse t h p) = Some t"
| "parse_tag a = None"

definition is_pipeline_tag :: "ResourceTag \<Rightarrow> bool" where
  "is_pipeline_tag t = (t = RESOURCE_GRAPHICS_PIPELINE \<or> t = RESOURCE_COMPUTE_PIPELINE)"

definition parses_pipeline :: "driver_action \<Rightarrow> bool" where
  "parses_pipeline a = (case parse_tag a of Some t \<Rightarrow> is_pipeline_tag t | None \<Rightarrow> False)"

definition parses_shader :: "driver_action \<Rightarrow> bool" where
  "parses_shader a = (parse_tag a = Some RESOURCE_SHADER_MODULE)"

fun barrier_before_pipelines :: "driver_action list \<Rightarrow> bool" where
  "barrier_before_pipelines [] = True"
| "barrier_before_pipelines (Sync # d) = (list_all (\<lambda>a. \<not> parses_shader a) d)"
| "barrier_before_pipelines (a # d) = (\<not> parses_pipeline a \<and> barrier_before_pipelines d)"

text \<open>The pushes of the main thread before its first call of \<open>sync_worker_threads\<close>.\<close>

definition pushes_before_barrier :: "process \<Rightarrow> nat" where
  "pushes_before_barrier p = pending_pushes (snd p) (takeWhile (\<lambda>a. a \<noteq> Sync) (fst p))"

text \<open>
  The items that are enqueued and not completed: those in the queue and those a worker
  holds. The ordering property: while a worker holds a pipeline item, no shader-module
  item is among them.
\<close>

fun worker_item :: "worker \<Rightarrow> PipelineWorkItem list" where
  "worker_item (Working work_item i) = [work_item]"
| "worker_item w = []"

definition held_items :: "ThreadedReplayer \<Rightarrow> PipelineWorkItem list" where
  "held_items s = concat (map worker_item (thread_pool s))"

definition unfinished_items :: "ThreadedReplayer \<Rightarrow> PipelineWorkItem list" where
  "unfinished_items s = pipeline_work_queue s @ held_items s"

definition pipelines_wait_for_shaders :: "process \<Rightarrow> bool" where
  "pipelines_wait_for_shaders p =
    (list_ex (\<lambda>i. is_pipeline_tag (tag i)) (held_items (snd p)) \<longrightarrow>
     list_all (\<lambda>i. tag i \<noteq> RESOURCE_SHADER_MODULE) (unfinished_items (snd p)))"

text \<open>
  A category that \<open>main\<close> plays to its end, and the actions of the main thread for it.
\<close>

definition category_completes :: "archive \<Rightarrow> ResourceTag \<Rightarrow> bool" where
  "category_completes a t =
    (case a t of HashListFailed \<Rightarrow> False | HashList es \<Rightarrow> snd (play_entries t es))"

definition category_actions :: "archive \<Rightarrow> ResourceTag \<Rightarrow> driver_action list" where
  "category_actions a t =
    (case a t of HashListFailed \<Rightarrow> [] | HashList es \<Rightarrow> fst (play_entries t es))"

text \<open>
  The invariant: with at most \<open>N\<close> pushes in the whole run, \<open>queued_count\<close> is the
  number of pushes so far and \<open>completed_count\<close> the number of completed items, and
  every pushed item is queued, held by a worker, or completed.
\<close>

definition counters_inv :: "nat \<Rightarrow> process \<Rightarrow> bool" where
  "counters_inv N p =
    (unat (queued_count (snd p)) + pending_pushes (snd p) (fst p) \<le> N \<and>
     unat (completed_count (snd p)) + outstanding (snd p) = unat (queued_count (snd p)))"


text \<open>
  The invariant behind the barrier. Before the barrier, the script still has its barrier
  ahead of every pipeline record, only shader-module items are unfinished, and the
  counters count them; after it, no shader-module record is left to parse and no
  shader-module item is unfinished.
\<close>

definition barrier_inv :: "nat \<Rightarrow> process \<Rightarrow> bool" where
  "barrier_inv N p =
    ((barrier_before_pipelines (fst p) \<and>
      list_all (\<lambda>i. tag i = RESOURCE_SHADER_MODULE) (unfinished_items (snd p)) \<and>
      counters_inv N (takeWhile (\<lambda>a. a \<noteq> Sync) (fst p), snd p)) \<or>
     (list_all (\<lambda>a. \<not> parses_shader a) (fst p) \<and>
      list_all (\<lambda>i. tag i \<noteq> RESOURCE_SHADER_MODULE) (unfinished_items (snd p))))"

text \<open>
  The categories that \<open>main\<close> plays before its first call of \<open>sync_worker_threads\<close>, and
  the two it plays after it.
\<close>

definition categories_before_barrier :: "ResourceTag list" where
  "categories_before_barrier =
    [RESOURCE_APPLICATION_INFO, RESOURCE_SHADER_MODULE, RESOURCE_SAMPLER,
     RESOURCE_DESCRIPTOR_SET_LAYOUT, RESOURCE_PIPELINE_LAYOUT, RESOURCE_RENDER_PASS]"

definition pipeline_categories :: "ResourceTag list" where
  "pipeline_categories = [RESOURCE_GRAPHICS_PIPELINE, RESOURCE_COMPUTE_PIPELINE]"

text \<open>
  A run with its history: \<open>replay_run p0 pushed taken p\<close> is reachability that keeps the
  work items pushed by the main thread and those taken from the queue by workers, each in
  the order in which it happened. \<open>pushed_by p p'\<close> is what a step from \<open>p\<close> to \<open>p'\<close> has
  appended to the queue, and \<open>taken_by w s\<close> is what the step of worker \<open>w\<close> takes in
  state \<open>s\<close>.
\<close>

definition pushed_by :: "process \<Rightarrow> process \<Rightarrow> PipelineWorkItem list" where
  "pushed_by p p' =
     drop (length (pipeline_work_queue (snd p))) (pipeline_work_queue (snd p'))"

definition taken_by :: "nat \<Rightarrow> ThreadedReplayer \<Rightarrow> PipelineWorkItem list" where
  "taken_by w s =
    (if w < length (thread_pool s) \<and> thread_pool s ! w = Waiting \<and> \<not> shutting_down s
     then take 1 (pipeline_work_queue s) else [])"

inductive replay_run ::
  "process \<Rightarrow> PipelineWorkItem list \<Rightarrow> PipelineWorkItem list \<Rightarrow> process \<Rightarrow> bool"
  for p0 :: process where
  run_start: "replay_run p0 [] [] p0"
| run_main: "replay_run p0 pushed taken p \<Longrightarrow> driver_step env r p = Some p' \<Longrightarrow>
     replay_run p0 (pushed @ pushed_by p p') taken p'"
| run_worker: "replay_run p0 pushed taken (d, s) \<Longrightarrow> worker_step w r s = Some s' \<Longrightarrow>
     replay_run p0 pushed (taken @ taken_by w s) (d, s')"

text \<open>
  The invariant of the counters in a run in which \<open>n\<close> work items have been pushed:
  \<open>queued_count\<close> is \<open>n\<close>, and every pushed item is queued, held by a worker, or counted
  by \<open>completed_count\<close>.
\<close>

definition pushes_counted :: "nat \<Rightarrow> process \<Rightarrow> bool" where
  "pushes_counted n p =
    (unat (queued_count (snd p)) = n \<and>
     unat (completed_count (snd p)) + outstanding (snd p) = n)"

text \<open>
  The hashes of the items of a category in a list of work items; the hashes of the
  records of a category that the main thread hands to the replayer (those it parses
  without an exception); and, of these, the graphics hashes that pass the filter.
\<close>

definition hashes_of :: "ResourceTag \<Rightarrow> PipelineWorkItem list \<Rightarrow> Hash set" where
  "hashes_of t work_items = hash ` set (filter (\<lambda>i. tag i = t) work_items)"

fun record_hash :: "ResourceTag \<Rightarrow> driver_action \<Rightarrow> Hash list" where
  "record_hash t (Parse t' h (ParseCalls info out)) = (if t' = t then [h] else [])"
| "record_hash t a = []"

definition replayed_hashes :: "ResourceTag \<Rightarrow> driver_action list \<Rightarrow> Hash set" where
  "replayed_hashes t d = set (concat (map (record_hash t) d))"

definition passing_graphics :: "ThreadedReplayer \<Rightarrow> driver_action list \<Rightarrow> Hash set" where
  "passing_graphics s d =
     {h \<in> replayed_hashes RESOURCE_GRAPHICS_PIPELINE d. graphics_filter_passes s h}"

text \<open>The hashes of the records of a category in the archive that parse.\<close>

fun entry_hash :: "Hash \<times> read_result \<Rightarrow> Hash list" where
  "entry_hash (h, Blob (ParseCalls info out)) = [h]"
| "entry_hash e = []"

definition archive_hashes :: "archive \<Rightarrow> ResourceTag \<Rightarrow> Hash set" where
  "archive_hashes a t =
    (case a t of HashListFailed \<Rightarrow> {} | HashList es \<Rightarrow> set (concat (map entry_hash es)))"

text \<open>
  The invariant behind the filter: the filters stay as they are; the graphics hashes
  taken by workers, those in the queue and those still to be pushed are among those that
  the main thread pushes in the run, and make up all of them as long as the main thread
  has not left.
\<close>

definition filter_inv :: "process \<Rightarrow> PipelineWorkItem list \<Rightarrow> process \<Rightarrow> bool" where
  "filter_inv p0 taken p =
    (filter_graphics (snd p) = filter_graphics (snd p0) \<and>
     filter_compute (snd p) = filter_compute (snd p0) \<and>
     hashes_of RESOURCE_GRAPHICS_PIPELINE taken \<union>
       hashes_of RESOURCE_GRAPHICS_PIPELINE (pipeline_work_queue (snd p)) \<union>
       passing_graphics (snd p0) (fst p) \<subseteq> passing_graphics (snd p0) (fst p0) \<and>
     (fst p \<noteq> [] \<longrightarrow>
        passing_graphics (snd p0) (fst p0) \<subseteq>
          hashes_of RESOURCE_GRAPHICS_PIPELINE taken \<union>
          hashes_of RESOURCE_GRAPHICS_PIPELINE (pipeline_work_queue (snd p)) \<union>
          passing_graphics (snd p0) (fst p)))"

section \<open>Example inputs\<close>

definition example_props :: VkPhysicalDeviceProperties where
  "example_props =
    \<lparr>vendorID = 0x10DE, deviceID = 0x1C82,
     pipelineCacheUUID = [7, 7, 7, 7, 7, 7, 7, 7, 7, 7, 7, 7, 7, 7, 7, 7]\<rparr>"

definition example_header :: "u8 list" where
  "example_header =
    [32, 0, 0, 0, 1, 0, 0, 0, 0xDE, 0x10, 0, 0, 0x82, 0x1C, 0, 0,
     7, 7, 7, 7, 7, 7, 7, 7, 7, 7, 7, 7, 7, 7, 7, 7]"

definition example_stale_header :: "u8 list" where
  "example_stale_header =
    [32, 0, 0, 0, 1, 0, 0, 0, 0xDE, 0x10, 0, 0, 0x83, 0x1C, 0, 0,
     7, 7, 7, 7, 7, 7, 7, 7, 7, 7, 7, 7, 7, 7, 7, 7]"

definition example_success :: vk_create where
  "example_success = \<lparr>vk_result = VK_SUCCESS, vk_object = 0x50, vk_elapsed_ns = 1000\<rparr>"

definition example_failure :: vk_create where
  "example_failure = \<lparr>vk_result = VK_ERROR, vk_object = 0, vk_elapsed_ns = 700\<rparr>"

definition example_env :: app_env where
  "example_env =
    \<lparr>init_device_ok = True, device_props = example_props,
     disk_cache = Opened 32 False example_stale_header,
     create_cache = example_success, create_blank_cache = example_success\<rparr>"

definition example_options :: Options where
  "example_options =
    \<lparr>opt_pipeline_cache = True, on_disk_pipeline_cache_path = ''cache.bin'',
     num_threads = 2, opt_loop_count = 3\<rparr>"

definition example_replayer :: ThreadedReplayer where
  "example_replayer = ThreadedReplayer_new example_options {2} {}"

definition example_archive :: archive where
  "example_archive t =
    (if t = RESOURCE_APPLICATION_INFO then HashList [(0, Blob (ParseCalls 0 0))]
     else if t = RESOURCE_SHADER_MODULE then HashList [(0xA, Blob (ParseCalls 1 1))]
     else if t = RESOURCE_GRAPHICS_PIPELINE then HashList [(0xC, Blob (ParseCalls 2 2))]
     else HashList [])"

definition example_invocation :: invocation where
  "example_invocation =
    \<lparr>hardware_concurrency = 0, cli_calls = [CliNumThreads 0, CliDefault ''db.foz''],
     cli_parse_ok = True, prepare_ok = True, the_archive = example_archive\<rparr>"

definition help_invocation :: invocation where
  "help_invocation =
    \<lparr>hardware_concurrency = 8, cli_calls = [CliHelp],
     cli_parse_ok = True, prepare_ok = True, the_archive = example_archive\<rparr>"

definition example_item :: PipelineWorkItem where
  "example_item = work_item_for RESOURCE_SHADER_MODULE 0xA 1 1"

definition example_queued :: ThreadedReplayer where
  "example_queued = snd (enqueue_create_shader_module 0xA 1 1 example_replayer)"

definition example_driver :: "nat \<Rightarrow> vk_create" where
  "example_driver i = \<lparr>vk_result = VK_SUCCESS, vk_object = 0x50 + of_nat i, vk_elapsed_ns = 1000\<rparr>"

definition zero_loop_options :: Options where
  "zero_loop_options =
    \<lparr>opt_pipeline_cache = False, on_disk_pipeline_cache_path = [],
     num_threads = 1, opt_loop_count = 0\<rparr>"

definition zero_loop_queued :: ThreadedReplayer where
  "zero_loop_queued =
     snd (enqueue_create_shader_module 0xA 1 1 (ThreadedReplayer_new zero_loop_options {} {}))"


definition example_script :: "driver_action list" where
  "example_script =
    [Parse RESOURCE_APPLICATION_INFO 0 (ParseCalls 0 0),
     Parse RESOURCE_SHADER_MODULE 0xA (ParseCalls 1 1),
     Sync,
     Parse RESOURCE_GRAPHICS_PIPELINE 0xC (ParseCalls 2 2),
     Sync, Report, Return EXIT_SUCCESS]"

definition example_start :: ThreadedReplayer where
  "example_start =
     ThreadedReplayer_new
       \<lparr>opt_pipeline_cache = False, on_disk_pipeline_cache_path = [],
        num_threads = 1, opt_loop_count = 1\<rparr> {} {}"

text \<open>
  An archive with \<open>2 ^ 32\<close> shader modules (and some graphics pipelines), replayed by two
  workers with \<open>--loop 1\<close>.
\<close>

definition big_count :: nat where
  "big_count = 2 ^ 32"

definition sm_entry :: "nat \<Rightarrow> Hash \<times> read_result" where
  "sm_entry k = (of_nat k, Blob (ParseCalls k k))"

definition sm_parse :: "nat \<Rightarrow> driver_action" where
  "sm_parse k = Parse RESOURCE_SHADER_MODULE (of_nat k) (ParseCalls k k)"

definition sm_item :: "nat \<Rightarrow> PipelineWorkItem" where
  "sm_item k = work_item_for RESOURCE_SHADER_MODULE (of_nat k) k k"

definition gp_parse :: driver_action where
  "gp_parse = Parse RESOURCE_GRAPHICS_PIPELINE 0xC (ParseCalls big_count big_count)"

definition gp_item :: PipelineWorkItem where
  "gp_item = work_item_for RESOURCE_GRAPHICS_PIPELINE 0xC big_count big_count"

definition big_archive :: "bool \<Rightarrow> archive" where
  "big_archive with_pipeline t =
    (if t = RESOURCE_APPLICATION_INFO then HashList [(0, Blob (ParseCalls 0 0))]
     else if t = RESOURCE_SHADER_MODULE then HashList (map sm_entry [0..<big_count])
     else if t = RESOURCE_GRAPHICS_PIPELINE \<and> with_pipeline
       then HashList [(0xC, Blob (ParseCalls big_count big_count))]
     else HashList [])"

definition big_invocation :: "bool \<Rightarrow> invocation" where
  "big_invocation with_pipeline =
    \<lparr>hardware_concurrency = 2, cli_calls = [CliDefault ''db.foz''],
     cli_parse_ok = True, prepare_ok = True, the_archive = big_archive with_pipeline\<rparr>"

definition big_tail :: "bool \<Rightarrow> driver_action list" where
  "big_tail with_pipeline =
     Sync # (if with_pipeline then [gp_parse] else []) @ [Sync, Report, Return EXIT_SUCCESS]"

definition big_script :: "bool \<Rightarrow> driver_action list" where
  "big_script with_pipeline =
     Parse RESOURCE_APPLICATION_INFO 0 (ParseCalls 0 0) #
       map sm_parse [0..<big_count] @ big_tail with_pipeline"

definition big_start :: ThreadedReplayer where
  "big_start =
     ThreadedReplayer_new
       \<lparr>opt_pipeline_cache = False, on_disk_pipeline_cache_path = [],
        num_threads = 2, opt_loop_count = 1\<rparr> {} {}"

text \<open>
  The part of a state of that run that decides which steps can be taken: what is left
  for the main thread, the queue, the two counters and the pool; with it, the
  shader-module count of the statistics and the number of successful shader-module
  creates so far.
\<close>

definition big_state ::
  "driver_action list \<Rightarrow> PipelineWorkItem list \<Rightarrow> u32 \<Rightarrow> u32 \<Rightarrow> worker list \<Rightarrow> u32 \<Rightarrow> nat
     \<Rightarrow> process \<Rightarrow> bool" where
  "big_state d q qc cc pool smc k p =
    (fst p = d \<and> pipeline_work_queue (snd p) = q \<and> queued_count (snd p) = qc \<and>
     completed_count (snd p) = cc \<and> thread_pool (snd p) = pool \<and>
     shader_module_count (snd p) = smc \<and>
     successful_creates RESOURCE_SHADER_MODULE (trace (snd p)) = k \<and>
     loop_count (snd p) = 1 \<and> \<not> shutting_down (snd p) \<and>
     filter_graphics (snd p) = {} \<and> filter_compute (snd p) = {})"

definition example_pushed :: process where
  "example_pushed =
    ([Sync, Parse RESOURCE_GRAPHICS_PIPELINE 0xC (ParseCalls 2 2), Sync, Report,
      Return EXIT_SUCCESS],
     snd (enqueue_create_shader_module 0xA 1 1 (example_start\<lparr>device_was_init := True\<rparr>)))"

definition example_popped :: process where
  "example_popped =
    (fst example_pushed,
     (snd example_pushed)\<lparr>pipeline_work_queue := [], thread_pool := [Working example_item 0]\<rparr>)"

definition example_created :: process where
  "example_created =
    (fst example_pushed,
     (loop_body example_item example_success (snd example_popped))
       \<lparr>thread_pool := [Working example_item 1]\<rparr>)"

text \<open>The small run continued: the shader module completes, and the pipeline is taken up.\<close>

definition example_gp_item :: PipelineWorkItem where
  "example_gp_item = work_item_for RESOURCE_GRAPHICS_PIPELINE 0xC 2 2"

definition example_completed :: process where
  "example_completed =
    (fst example_pushed, (mark_completed (snd example_created))\<lparr>thread_pool := [Waiting]\<rparr>)"

definition example_gp_pushed :: process where
  "example_gp_pushed =
    ([Sync, Report, Return EXIT_SUCCESS],
     snd (enqueue_create_graphics_pipeline 0xC 2 2 (snd example_completed)))"

definition example_gp_popped :: process where
  "example_gp_popped =
    (fst example_gp_pushed,
     (snd example_gp_pushed)\<lparr>pipeline_work_queue := [],
        thread_pool := [Working example_gp_item 0]\<rparr>)"

text \<open>
  A run with \<open>--filter-graphics 12\<close> on an archive with the graphics pipelines 12 and 13,
  replayed by one worker; and the same invocation on an archive whose list of compute
  pipelines cannot be read.
\<close>

definition filtered_archive :: archive where
  "filtered_archive t =
    (if t = RESOURCE_GRAPHICS_PIPELINE
     then HashList [(0xC, Blob (ParseCalls 2 2)), (0xD, Blob (ParseCalls 3 3))]
     else HashList [])"

definition filtered_invocation :: invocation where
  "filtered_invocation =
    \<lparr>hardware_concurrency = 1, cli_calls = [CliFilterGraphics 0xC, CliDefault ''db.foz''],
     cli_parse_ok = True, prepare_ok = True, the_archive = filtered_archive\<rparr>"

definition filtered_script :: "driver_action list" where
  "filtered_script =
    [Sync,
     Parse RESOURCE_GRAPHICS_PIPELINE 0xC (ParseCalls 2 2),
     Parse RESOURCE_GRAPHICS_PIPELINE 0xD (ParseCalls 3 3),
     Sync, Report, Return EXIT_SUCCESS]"

definition filtered_start :: ThreadedReplayer where
  "filtered_start =
     ThreadedReplayer_new
       \<lparr>opt_pipeline_cache = False, on_disk_pipeline_cache_path = [],
        num_threads = 1, opt_loop_count = 1\<rparr> {0xC} {}"

definition filtered_pushed :: process where
  "filtered_pushed =
    ([Parse RESOURCE_GRAPHICS_PIPELINE 0xD (ParseCalls 3 3), Sync, Report, Return EXIT_SUCCESS],
     snd (enqueue_create_graphics_pipeline 0xC 2 2 filtered_start))"

definition filtered_skipped :: process where
  "filtered_skipped =
    ([Sync, Report, Return EXIT_SUCCESS],
     snd (enqueue_create_graphics_pipeline 0xD 3 3 (snd filtered_pushed)))"

definition filtered_popped :: process where
  "filtered_popped =
    (fst filtered_skipped,
     (snd filtered_skipped)\<lparr>pipeline_work_queue := [],
        thread_pool := [Working example_gp_item 0]\<rparr>)"

definition filtered_created :: process where
  "filtered_created =
    (fst filtered_skipped,
     (loop_body example_gp_item example_success (snd filtered_popped))
       \<lparr>thread_pool := [Working example_gp_item 1]\<rparr>)"

definition filtered_completed :: process where
  "filtered_completed =
    (fst filtered_skipped, (mark_completed (snd filtered_created))\<lparr>thread_pool := [Waiting]\<rparr>)"

definition filtered_synced :: process where
  "filtered_synced = ([Report, Return EXIT_SUCCESS], snd filtered_completed)"

definition filtered_reported :: process where
  "filtered_reported = ([Return EXIT_SUCCESS], snd filtered_completed)"

definition aborted_archive :: archive where
  "aborted_archive t =
    (if t = RESOURCE_GRAPHICS_PIPELINE then HashList [(0xC, Blob (ParseCalls 2 2))]
     else if t = RESOURCE_COMPUTE_PIPELINE then HashListFailed
     else HashList [])"

definition aborted_invocation :: invocation where
  "aborted_invocation =
    \<lparr>hardware_concurrency = 1, cli_calls = [CliFilterGraphics 0xC, CliDefault ''db.foz''],
     cli_parse_ok = True, prepare_ok = True, the_archive = aborted_archive\<rparr>"

definition aborted_script :: "driver_action list" where
  "aborted_script =
    [Sync, Parse RESOURCE_GRAPHICS_PIPELINE 0xC (ParseCalls 2 2), Return EXIT_FAILURE]"

definition aborted_pushed :: process where
  "aborted_pushed =
    ([Return EXIT_FAILURE], snd (enqueue_create_graphics_pipeline 0xC 2 2 filtered_start))"

definition aborted_left :: process where
  "aborted_left = ([], (snd aborted_pushed)\<lparr>shutting_down := True\<rparr>)"

definition aborted_final :: process where
  "aborted_final = ([], (worker_exit (snd aborted_left))\<lparr>thread_pool := [Finished]\<rparr>)"

section \<open>The pipeline-cache header: properties\<close>

lemma le_bytes_or_eq_sum:
  fixes a b c d :: u8
  shows "(ucast a OR push_bit 8 (ucast b) OR push_bit 16 (ucast c) OR push_bit 24 (ucast d) :: u32)
     = of_nat (unat a + 256 * unat b + 65536 * unat c + 16777216 * unat d)"
proof -
  have d1: "(ucast a :: u32) AND
      (push_bit 8 (ucast b) OR push_bit 16 (ucast c) OR push_bit 24 (ucast d)) = 0"
    by (rule bit_word_eqI) (auto simp: bit_simps dest: bit_imp_le_length)
  have d2: "(push_bit 8 (ucast b) :: u32) AND (push_bit 16 (ucast c) OR push_bit 24 (ucast d)) = 0"
    by (rule bit_word_eqI) (auto simp: bit_simps dest: bit_imp_le_length)
  have d3: "(push_bit 16 (ucast c) :: u32) AND (push_bit 24 (ucast d)) = 0"
    by (rule bit_word_eqI) (auto simp: bit_simps dest: bit_imp_le_length)
  have "(ucast a OR push_bit 8 (ucast b) OR push_bit 16 (ucast c) OR push_bit 24 (ucast d) :: u32)
      = ucast a + (push_bit 8 (ucast b) + (push_bit 16 (ucast c) + push_bit 24 (ucast d)))"
    using d1 d2 d3 by (simp add: disjunctive_add_eq_or)
  also have "\<dots> = of_nat (unat a + 256 * unat b + 65536 * unat c + 16777216 * unat d)"
    by (simp add: push_bit_eq_mult mult.commute)
  finally show ?thesis .
qed

lemma le_bytes_bound:
  fixes a b c d :: u8
  shows "unat a + 256 * unat b + 65536 * unat c + 16777216 * unat d < 2 ^ 32"
proof -
  have "unat a < 256" "unat b < 256" "unat c < 256" "unat d < 256"
    using unsigned_less[of a, where 'a=nat] unsigned_less[of b, where 'a=nat]
       unsigned_less[of c, where 'a=nat] unsigned_less[of d, where 'a=nat] by simp_all
  then show ?thesis by simp
qed

lemma unat_read_le: "unat (read_le blob off) = le_u32_value blob off"
  unfolding read_le_def le_u32_value_def
  using le_bytes_bound[of "blob ! off" "blob ! (off+1)" "blob ! (off+2)" "blob ! (off+3)"]
  by (simp add: le_bytes_or_eq_sum unat_of_nat del: of_nat_add of_nat_mult)

lemma read_le_eq_iff: "read_le blob off = w \<longleftrightarrow> le_u32_value blob off = unat w"
  by (metis unat_read_le word_unat_eq_iff)

lemma validate_iff_header_matches:
  assumes "length (pipelineCacheUUID props) = VK_UUID_SIZE"
  shows "validate_pipeline_cache_header props blob \<longleftrightarrow> header_matches_device props blob"
proof -
  have v: "vendorID props \<noteq> read_le blob 8 \<longleftrightarrow> le_u32_value blob 8 \<noteq> unat (vendorID props)"
    using read_le_eq_iff[of blob 8 "vendorID props"] by auto
  have d: "deviceID props \<noteq> read_le blob 12 \<longleftrightarrow> le_u32_value blob 12 \<noteq> unat (deviceID props)"
    using read_le_eq_iff[of blob 12 "deviceID props"] by auto
  have l: "read_le blob 0 \<noteq> of_nat (16 + VK_UUID_SIZE) \<longleftrightarrow> le_u32_value blob 0 \<noteq> 16 + VK_UUID_SIZE"
    using read_le_eq_iff[of blob 0 "of_nat (16 + VK_UUID_SIZE)"] by (simp add: VK_UUID_SIZE_def)
  have r: "read_le blob 4 \<noteq> VK_PIPELINE_CACHE_HEADER_VERSION_ONE \<longleftrightarrow> le_u32_value blob 4 \<noteq> 1"
    using read_le_eq_iff[of blob 4 1] by (simp add: VK_PIPELINE_CACHE_HEADER_VERSION_ONE_def)
  show ?thesis
    unfolding validate_pipeline_cache_header_def header_matches_device_def v d l r
    using assms by auto
qed

lemma rejected_cache_is_blank:
  assumes "\<not> device_was_init s" and "init_device_ok env" and "opt_pipeline_cache (opts s)"
    and "on_disk_pipeline_cache_path (opts s) \<noteq> []"
    and "disk_cache env = Opened (length blob) False blob" and "blob \<noteq> []"
    and "\<not> validate_pipeline_cache_header (device_props env) blob"
  shows "\<exists>s'. set_application_info env s = Inr s' \<and>
     trace s' = trace s @
       [LogCacheRejected, CreatePipelineCache [] (vk_result (create_cache env))] @
       (if vk_result (create_cache env) = VK_SUCCESS then []
        else [CreatePipelineCache [] (vk_result (create_blank_cache env))]) \<and>
     pipeline_cache s' =
       (if vk_result (create_cache env) = VK_SUCCESS then vk_object (create_cache env)
        else if vk_result (create_blank_cache env) = VK_SUCCESS
          then vk_object (create_blank_cache env)
        else VK_NULL_HANDLE) \<and>
     device_was_init s'"
proof -
  have "load_on_disk_cache env (s\<lparr>device_was_init := True\<rparr>) =
      Inr ([], s\<lparr>device_was_init := True, trace := trace s @ [LogCacheRejected]\<rparr>)"
    using assms(4-7) by (simp add: load_on_disk_cache_def Let_def)
  then show ?thesis
    using assms(1-3) by (simp add: set_application_info_def Let_def)
qed

lemma application_info_step:
  assumes "set_application_info env s = Inr s'"
  shows "driver_step env r (Parse RESOURCE_APPLICATION_INFO h (ParseCalls info out) # rest, s)
     = Some (rest, s')"
  using assms by (simp add: replay_record_def)

text \<open>
  When \<open>resize\<close> throws, no pipeline cache is created: the exception leaves
  \<open>set_application_info\<close>, and \<open>main\<close> logs it and goes on with its next record.
\<close>

lemma throwing_resize_skips_cache:
  assumes "\<not> device_was_init s" and "init_device_ok env" and "opt_pipeline_cache (opts s)"
    and "on_disk_pipeline_cache_path (opts s) \<noteq> []"
    and "disk_cache env = Opened len True bytes" and "len \<noteq> 0"
  shows "set_application_info env s = Inl (Thrown (s\<lparr>device_was_init := True\<rparr>))"
    and "driver_step env r (Parse RESOURCE_APPLICATION_INFO h (ParseCalls info out) # rest, s)
      = Some (rest, s\<lparr>device_was_init := True,
                        trace := trace s @ [LogParseException RESOURCE_APPLICATION_INFO h]\<rparr>)"
proof -
  show t: "set_application_info env s = Inl (Thrown (s\<lparr>device_was_init := True\<rparr>))"
    using assms by (simp add: set_application_info_def load_on_disk_cache_def Let_def)
  show "driver_step env r (Parse RESOURCE_APPLICATION_INFO h (ParseCalls info out) # rest, s)
      = Some (rest, s\<lparr>device_was_init := True,
                        trace := trace s @ [LogParseException RESOURCE_APPLICATION_INFO h]\<rparr>)"
    by (simp add: replay_record_def t)
qed

text \<open>
  Claim C6. The validator accepts a blob exactly when the blob has at least
  \<open>16 + VK_UUID_SIZE\<close> bytes, its little-endian length field is \<open>16 + VK_UUID_SIZE\<close>,
  its version field is 1, its vendor and device fields are the device's, and the 16
  bytes from offset 16 are the device's \<open>pipelineCacheUUID\<close> (an array of
  \<open>VK_UUID_SIZE\<close> bytes). When the replayer, with a pipeline cache asked for, reads a file
  from disk that is not such a blob, \<open>set_application_info\<close> returns instead of leaving
  the program: it logs that the cache was not accepted, creates the pipeline cache from
  no initial data (once more when the driver refuses the first call) and keeps the
  handle the driver gave; no byte of the file is handed to \<open>vkCreatePipelineCache\<close>. The
  main thread goes on with its next record.
\<close>

theorem pipeline_cache_header_validation:
  assumes "length (pipelineCacheUUID (device_props env)) = VK_UUID_SIZE"
  shows "(validate_pipeline_cache_header (device_props env) blob
            \<longleftrightarrow> header_matches_device (device_props env) blob) \<and>
         (\<not> device_was_init s \<and> init_device_ok env \<and> opt_pipeline_cache (opts s) \<and>
          on_disk_pipeline_cache_path (opts s) \<noteq> [] \<and>
          disk_cache env = Opened (length blob) False blob \<and> blob \<noteq> [] \<and>
          \<not> header_matches_device (device_props env) blob \<longrightarrow>
            (\<exists>s'. set_application_info env s = Inr s' \<and>
               trace s' = trace s @
                 [LogCacheRejected, CreatePipelineCache [] (vk_result (create_cache env))] @
                 (if vk_result (create_cache env) = VK_SUCCESS then []
                  else [CreatePipelineCache [] (vk_result (create_blank_cache env))]) \<and>
               pipeline_cache s' =
                 (if vk_result (create_cache env) = VK_SUCCESS then vk_object (create_cache env)
                  else if vk_result (create_blank_cache env) = VK_SUCCESS
                    then vk_object (create_blank_cache env)
                  else VK_NULL_HANDLE) \<and>
               device_was_init s' \<and>
               driver_step env r
                   (Parse RESOURCE_APPLICATION_INFO h (ParseCalls info out) # rest, s)
                 = Some (rest, s')))"
proof -
  note iff = validate_iff_header_matches[OF assms, of blob]
  have "\<exists>s'. set_application_info env s = Inr s' \<and>
       trace s' = trace s @
         [LogCacheRejected, CreatePipelineCache [] (vk_result (create_cache env))] @
         (if vk_result (create_cache env) = VK_SUCCESS then []
          else [CreatePipelineCache [] (vk_result (create_blank_cache env))]) \<and>
       pipeline_cache s' =
         (if vk_result (create_cache env) = VK_SUCCESS then vk_object (create_cache env)
          else if vk_result (create_blank_cache env) = VK_SUCCESS
            then vk_object (create_blank_cache env)
          else VK_NULL_HANDLE) \<and>
       device_was_init s' \<and>
       driver_step env r (Parse RESOURCE_APPLICATION_INFO h (ParseCalls info out) # rest, s)
         = Some (rest, s')"
    if "\<not> device_was_init s" "init_device_ok env" "opt_pipeline_cache (opts s)"
      "on_disk_pipeline_cache_path (opts s) \<noteq> []"
      "disk_cache env = Opened (length blob) False blob" "blob \<noteq> []"
      "\<not> header_matches_device (device_props env) blob"
  proof -
    from that(7) iff have "\<not> validate_pipeline_cache_header (device_props env) blob" by simp
    from rejected_cache_is_blank[OF that(1-6) this]
    obtain s' where s': "set_application_info env s = Inr s'"
      "trace s' = trace s @
         [LogCacheRejected, CreatePipelineCache [] (vk_result (create_cache env))] @
         (if vk_result (create_cache env) = VK_SUCCESS then []
          else [CreatePipelineCache [] (vk_result (create_blank_cache env))])"
      "pipeline_cache s' =
         (if vk_result (create_cache env) = VK_SUCCESS then vk_object (create_cache env)
          else if vk_result (create_blank_cache env) = VK_SUCCESS
            then vk_object (create_blank_cache env)
          else VK_NULL_HANDLE)"
      "device_was_init s'"
      by blast
    with application_info_step[OF s'(1), of r h info out rest] show ?thesis by blast
  qed
  with iff show ?thesis by blast
qed

theorem pipeline_cache_header_validation_witness:
  "length (pipelineCacheUUID (device_props example_env)) = VK_UUID_SIZE \<and>
   validate_pipeline_cache_header (device_props example_env) example_header \<and>
   header_matches_device (device_props example_env) example_header \<and>
   \<not> device_was_init example_replayer \<and> init_device_ok example_env \<and>
   opt_pipeline_cache (opts example_replayer) \<and>
   on_disk_pipeline_cache_path (opts example_replayer) \<noteq> [] \<and>
   disk_cache example_env = Opened (length example_stale_header) False example_stale_header \<and>
   example_stale_header \<noteq> [] \<and>
   \<not> header_matches_device (device_props example_env) example_stale_header \<and>
   (\<exists>s'. set_application_info example_env example_replayer = Inr s' \<and>
      trace s' = [LogCacheRejected, CreatePipelineCache [] VK_SUCCESS] \<and>
      pipeline_cache s' = 0x50 \<and>
      driver_step example_env example_success
          ([Parse RESOURCE_APPLICATION_INFO 0 (ParseCalls 0 0), Sync], example_replayer)
        = Some ([Sync], s'))"
proof -
  have len: "length (pipelineCacheUUID (device_props example_env)) = VK_UUID_SIZE"
    by (simp add: example_env_def example_props_def VK_UUID_SIZE_def)
  have good: "header_matches_device (device_props example_env) example_header"
    by (simp add: header_matches_device_def le_u32_value_def example_env_def example_props_def
        example_header_def VK_UUID_SIZE_def)
  have bad: "\<not> header_matches_device (device_props example_env) example_stale_header"
    by (simp add: header_matches_device_def le_u32_value_def example_env_def example_props_def
        example_stale_header_def VK_UUID_SIZE_def)
  have on_disk: "disk_cache example_env =
      Opened (length example_stale_header) False example_stale_header"
    "example_stale_header \<noteq> []" "init_device_ok example_env"
    by (simp_all add: example_env_def example_stale_header_def)
  have fresh: "\<not> device_was_init example_replayer" "opt_pipeline_cache (opts example_replayer)"
    "on_disk_pipeline_cache_path (opts example_replayer) \<noteq> []"
    "trace example_replayer = []"
    by (simp_all add: example_replayer_def ThreadedReplayer_new_def example_options_def)
  have ok: "vk_result (create_cache example_env) = VK_SUCCESS"
    "vk_object (create_cache example_env) = 0x50"
    by (simp_all add: example_env_def example_success_def)
  from pipeline_cache_header_validation[OF len, of example_header] good
  have v: "validate_pipeline_cache_header (device_props example_env) example_header" by blast
  from pipeline_cache_header_validation[OF len, of example_stale_header example_replayer
      example_success 0 0 0 "[Sync]"] fresh(1-3) on_disk bad
  obtain s' where "set_application_info example_env example_replayer = Inr s'"
    "trace s' = trace example_replayer @
       [LogCacheRejected, CreatePipelineCache [] (vk_result (create_cache example_env))] @
       (if vk_result (create_cache example_env) = VK_SUCCESS then []
        else [CreatePipelineCache [] (vk_result (create_blank_cache example_env))])"
    "pipeline_cache s' =
       (if vk_result (create_cache example_env) = VK_SUCCESS
        then vk_object (create_cache example_env)
        else if vk_result (create_blank_cache example_env) = VK_SUCCESS
          then vk_object (create_blank_cache example_env)
        else VK_NULL_HANDLE)"
    "driver_step example_env example_success
        ([Parse RESOURCE_APPLICATION_INFO 0 (ParseCalls 0 0), Sync], example_replayer)
      = Some ([Sync], s')"
    by blast
  then have "\<exists>s'. set_application_info example_env example_replayer = Inr s' \<and>
      trace s' = [LogCacheRejected, CreatePipelineCache [] VK_SUCCESS] \<and>
      pipeline_cache s' = 0x50 \<and>
      driver_step example_env example_success
          ([Parse RESOURCE_APPLICATION_INFO 0 (ParseCalls 0 0), Sync], example_replayer)
        = Some ([Sync], s')"
    by (simp add: ok fresh(4))
  then show ?thesis
    using len v good fresh(1-3) on_disk bad by blast
qed

section \<open>The enqueue operations: properties\<close>

lemma enqueue_create_sampler_result:
  "enqueue_create_sampler h info out r s =
    (if vk_result r \<noteq> VK_SUCCESS
     then (False, s\<lparr>trace := trace s @ [Create RESOURCE_SAMPLER h r, LogE RESOURCE_SAMPLER h]\<rparr>)
     else (True, s\<lparr>trace := trace s @ [Create RESOURCE_SAMPLER h r],
                   output_slots := (output_slots s)(out := vk_object r),
                   samplers := (samplers s)(h \<mapsto> vk_object r)\<rparr>))"
  by (simp add: enqueue_create_sampler_def Let_def)

lemma enqueue_create_descriptor_set_layout_result:
  "enqueue_create_descriptor_set_layout h info out r s =
    (if vk_result r \<noteq> VK_SUCCESS
     then (False, s\<lparr>trace := trace s @ [Create RESOURCE_DESCRIPTOR_SET_LAYOUT h r,
                                          LogE RESOURCE_DESCRIPTOR_SET_LAYOUT h]\<rparr>)
     else (True, s\<lparr>trace := trace s @ [Create RESOURCE_DESCRIPTOR_SET_LAYOUT h r],
                   output_slots := (output_slots s)(out := vk_object r),
                   layouts := (layouts s)(h \<mapsto> vk_object r)\<rparr>))"
  by (simp add: enqueue_create_descriptor_set_layout_def Let_def)

lemma enqueue_create_pipeline_layout_result:
  "enqueue_create_pipeline_layout h info out r s =
    (if vk_result r \<noteq> VK_SUCCESS
     then (False, s\<lparr>trace := trace s @ [Create RESOURCE_PIPELINE_LAYOUT h r,
                                          LogE RESOURCE_PIPELINE_LAYOUT h]\<rparr>)
     else (True, s\<lparr>trace := trace s @ [Create RESOURCE_PIPELINE_LAYOUT h r],
                   output_slots := (output_slots s)(out := vk_object r),
                   pipeline_layouts := (pipeline_layouts s)(h \<mapsto> vk_object r)\<rparr>))"
  by (simp add: enqueue_create_pipeline_layout_def Let_def)

lemma enqueue_create_render_pass_result:
  "enqueue_create_render_pass h info out r s =
    (if vk_result r \<noteq> VK_SUCCESS
     then (False, s\<lparr>trace := trace s @ [Create RESOURCE_RENDER_PASS h r,
                                          LogE RESOURCE_RENDER_PASS h]\<rparr>)
     else (True, s\<lparr>trace := trace s @ [Create RESOURCE_RENDER_PASS h r],
                   output_slots := (output_slots s)(out := vk_object r),
                   render_passes := (render_passes s)(h \<mapsto> vk_object r)\<rparr>))"
  by (simp add: enqueue_create_render_pass_def Let_def)

lemma trivial_record_continues:
  assumes "trivial_category t"
  shows "\<exists>ok s'. replay_record t h info out env r s = Inr (ok, s') \<and>
     driver_step env r (Parse t h (ParseCalls info out) # rest, s) = Some (rest, s')"
  using assms
  by (auto simp: trivial_category_def replay_record_def enqueue_create_sampler_result
      enqueue_create_descriptor_set_layout_result enqueue_create_pipeline_layout_result
      enqueue_create_render_pass_result)

text \<open>
  Claim C9. For each trivial category (sampler, descriptor-set layout, pipeline layout,
  render pass): when the create call fails, the operation returns false, the registry
  map of the category is unchanged and the hash is logged; when it succeeds, the
  operation returns true and the created handle is stored under the hash. In both cases
  the main thread goes on with the rest of its work.
\<close>

theorem trivial_enqueue_create:
  "(vk_result r \<noteq> VK_SUCCESS \<longrightarrow>
      (\<exists>s'. enqueue_create_sampler h info out r s = (False, s') \<and>
         samplers s' = samplers s \<and> LogE RESOURCE_SAMPLER h \<in> set (trace s')) \<and>
      (\<exists>s'. enqueue_create_descriptor_set_layout h info out r s = (False, s') \<and>
         layouts s' = layouts s \<and> LogE RESOURCE_DESCRIPTOR_SET_LAYOUT h \<in> set (trace s')) \<and>
      (\<exists>s'. enqueue_create_pipeline_layout h info out r s = (False, s') \<and>
         pipeline_layouts s' = pipeline_layouts s \<and> LogE RESOURCE_PIPELINE_LAYOUT h \<in> set (trace s')) \<and>
      (\<exists>s'. enqueue_create_render_pass h info out r s = (False, s') \<and>
         render_passes s' = render_passes s \<and> LogE RESOURCE_RENDER_PASS h \<in> set (trace s'))) \<and>
   (vk_result r = VK_SUCCESS \<longrightarrow>
      (\<exists>s'. enqueue_create_sampler h info out r s = (True, s') \<and>
         samplers s' = (samplers s)(h \<mapsto> vk_object r)) \<and>
      (\<exists>s'. enqueue_create_descriptor_set_layout h info out r s = (True, s') \<and>
         layouts s' = (layouts s)(h \<mapsto> vk_object r)) \<and>
      (\<exists>s'. enqueue_create_pipeline_layout h info out r s = (True, s') \<and>
         pipeline_layouts s' = (pipeline_layouts s)(h \<mapsto> vk_object r)) \<and>
      (\<exists>s'. enqueue_create_render_pass h info out r s = (True, s') \<and>
         render_passes s' = (render_passes s)(h \<mapsto> vk_object r))) \<and>
   (trivial_category t \<longrightarrow>
      (\<exists>ok s'. replay_record t h info out env r s = Inr (ok, s') \<and>
         driver_step env r (Parse t h (ParseCalls info out) # rest, s) = Some (rest, s')))"
  using trivial_record_continues[of t h info out env r s rest]
  by (simp add: enqueue_create_sampler_result enqueue_create_descriptor_set_layout_result
      enqueue_create_pipeline_layout_result enqueue_create_render_pass_result)

theorem trivial_enqueue_create_witness:
  "vk_result example_failure \<noteq> VK_SUCCESS \<and>
   fst (enqueue_create_sampler 5 0 0 example_failure example_replayer) = False \<and>
   samplers (snd (enqueue_create_sampler 5 0 0 example_failure example_replayer)) 5 = None \<and>
   fst (enqueue_create_render_pass 5 0 0 example_failure example_replayer) = False \<and>
   vk_result example_success = VK_SUCCESS \<and>
   fst (enqueue_create_sampler 5 0 0 example_success example_replayer) = True \<and>
   samplers (snd (enqueue_create_sampler 5 0 0 example_success example_replayer)) 5 = Some 0x50 \<and>
   trivial_category RESOURCE_SAMPLER \<and>
   (\<exists>s'. driver_step example_env example_failure
            ([Parse RESOURCE_SAMPLER 5 (ParseCalls 0 0), Sync], example_replayer) = Some ([Sync], s'))"
proof -
  have f: "vk_result example_failure \<noteq> VK_SUCCESS" and g: "vk_result example_success = VK_SUCCESS"
    by (simp_all add: example_failure_def example_success_def)
  have t: "trivial_category RESOURCE_SAMPLER" by (simp add: trivial_category_def)
  have e: "samplers example_replayer = Map.empty"
    by (simp add: example_replayer_def ThreadedReplayer_new_def)
  have o: "vk_object example_success = 0x50" by (simp add: example_success_def)
  show ?thesis
    using trivial_enqueue_create[of example_failure 5 0 0 example_replayer RESOURCE_SAMPLER example_env "[Sync]"]
      trivial_enqueue_create[of example_success 5 0 0 example_replayer RESOURCE_SAMPLER example_env "[Sync]"]
      f g t e o
    by auto
qed

text \<open>
  Claim C10. The enqueue operations of the deferred categories (shader module, graphics
  pipeline, compute pipeline) return true for every input; for a hash the filter leaves
  out, the operation only sets the caller's output slot to the null handle. So an
  enqueue operation that returns false belongs to a trivial category.
\<close>

theorem deferred_enqueue_returns_true:
  "fst (enqueue_create_shader_module h info out s) \<and>
   fst (enqueue_create_graphics_pipeline h info out s) \<and>
   fst (enqueue_create_compute_pipeline h info out s) \<and>
   (\<not> ((filter_graphics s = {} \<and> filter_compute s = {}) \<or> h \<in> filter_graphics s) \<longrightarrow>
      enqueue_create_graphics_pipeline h info out s =
        (True, s\<lparr>output_slots := (output_slots s)(out := VK_NULL_HANDLE)\<rparr>)) \<and>
   (\<not> ((filter_compute s = {} \<and> filter_graphics s = {}) \<or> h \<in> filter_compute s) \<longrightarrow>
      enqueue_create_compute_pipeline h info out s =
        (True, s\<lparr>output_slots := (output_slots s)(out := VK_NULL_HANDLE)\<rparr>)) \<and>
   (\<forall>s'. replay_record t h info out env r s = Inr (False, s') \<longrightarrow> trivial_category t)"
  by (cases t)
     (auto simp: replay_record_def trivial_category_def enqueue_create_shader_module_def
        enqueue_create_graphics_pipeline_def enqueue_create_compute_pipeline_def Let_def
        split: sum.splits if_splits)

theorem deferred_enqueue_returns_true_witness:
  "fst (enqueue_create_shader_module 1 0 0 example_replayer) \<and>
   fst (enqueue_create_graphics_pipeline 1 0 0 example_replayer) \<and>
   \<not> ((filter_graphics example_replayer = {} \<and> filter_compute example_replayer = {})
        \<or> 1 \<in> filter_graphics example_replayer) \<and>
   pipeline_work_queue (snd (enqueue_create_graphics_pipeline 1 0 0 example_replayer)) = [] \<and>
   replay_record RESOURCE_SAMPLER 1 0 0 example_env example_failure example_replayer
     = Inr (enqueue_create_sampler 1 0 0 example_failure example_replayer) \<and>
   fst (enqueue_create_sampler 1 0 0 example_failure example_replayer) = False \<and>
   trivial_category RESOURCE_SAMPLER"
proof -
  have flt: "filter_graphics example_replayer = {2}" "filter_compute example_replayer = {}"
     "pipeline_work_queue example_replayer = []"
    by (simp_all add: example_replayer_def ThreadedReplayer_new_def)
  have rr: "replay_record RESOURCE_SAMPLER 1 0 0 example_env example_failure example_replayer
     = Inr (enqueue_create_sampler 1 0 0 example_failure example_replayer)"
    by (simp add: replay_record_def)
  have ff: "fst (enqueue_create_sampler 1 0 0 example_failure example_replayer) = False"
    by (simp add: enqueue_create_sampler_result example_failure_def)
  show ?thesis
    using deferred_enqueue_returns_true[of 1 0 0 example_replayer RESOURCE_SAMPLER example_env example_failure]
      flt rr ff
    by (auto simp: prod_eq_iff)
qed

section \<open>The pipeline filters\<close>

lemma enqueue_create_graphics_pipeline_result:
  "enqueue_create_graphics_pipeline h info out s =
    (if graphics_filter_passes s h
     then (True, s\<lparr>graphics_pipelines := subscript (graphics_pipelines s) h,
                   pipeline_work_queue := pipeline_work_queue s
                      @ [work_item_for RESOURCE_GRAPHICS_PIPELINE h info out],
                   queued_count := queued_count s + 1\<rparr>)
     else (True, s\<lparr>output_slots := (output_slots s)(out := VK_NULL_HANDLE)\<rparr>))"
  by (auto simp: enqueue_create_graphics_pipeline_def graphics_filter_passes_def work_item_for_def
      Let_def)

lemma enqueue_create_compute_pipeline_result:
  "enqueue_create_compute_pipeline h info out s =
    (if compute_filter_passes s h
     then (True, s\<lparr>compute_pipelines := subscript (compute_pipelines s) h,
                   pipeline_work_queue := pipeline_work_queue s
                      @ [work_item_for RESOURCE_COMPUTE_PIPELINE h info out],
                   queued_count := queued_count s + 1\<rparr>)
     else (True, s\<lparr>output_slots := (output_slots s)(out := VK_NULL_HANDLE)\<rparr>))"
  by (auto simp: enqueue_create_compute_pipeline_def compute_filter_passes_def work_item_for_def
      Let_def)

section \<open>The size of the worker pool\<close>

lemma num_threads_foldl_cli_callback:
  "num_threads (replayer_opts (foldl cli_callback l calls)) =
     configured_num_threads (num_threads (replayer_opts l)) calls"
proof (induction calls arbitrary: l)
  case Nil
  then show ?case by simp
next
  case (Cons c calls)
  show ?case by (cases c) (simp_all add: Cons.IH)
qed

lemma thread_pool_new:
  "thread_pool (ThreadedReplayer_new o1 g c) = replicate (unat (num_threads o1)) Waiting"
  by (simp add: ThreadedReplayer_new_def)

lemma main_start_replayer:
  assumes "main_start invoc = Inr p"
  shows "\<exists>o1 g c. snd p = ThreadedReplayer_new o1 g c \<and>
     num_threads o1 =
       (if configured_num_threads (hardware_concurrency invoc) (cli_calls invoc) < 1 then 1
        else configured_num_threads (hardware_concurrency invoc) (cli_calls invoc))"
proof -
  let ?l = "foldl cli_callback (initial_locals (hardware_concurrency invoc)) (cli_calls invoc)"
  let ?o1 = "if num_threads (replayer_opts ?l) < 1
             then (replayer_opts ?l)\<lparr>num_threads := 1\<rparr> else replayer_opts ?l"
  let ?o2 = "if on_disk_pipeline_cache_path ?o1 \<noteq> []
             then ?o1\<lparr>opt_pipeline_cache := True\<rparr> else ?o1"
  have n: "num_threads (replayer_opts ?l) =
      configured_num_threads (hardware_concurrency invoc) (cli_calls invoc)"
    by (simp add: num_threads_foldl_cli_callback initial_locals_def)
  have "snd p = ThreadedReplayer_new ?o2 (main_filter_graphics ?l) (main_filter_compute ?l)"
    using assms unfolding main_start_def Let_def by (auto split: if_splits)
  moreover have "num_threads ?o2 =
       (if configured_num_threads (hardware_concurrency invoc) (cli_calls invoc) < 1 then 1
        else configured_num_threads (hardware_concurrency invoc) (cli_calls invoc))"
    unfolding n[symmetric] by simp
  ultimately show ?thesis by blast
qed

lemma thread_pool_main_start:
  assumes "main_start invoc = Inr p"
  shows "thread_pool (snd p) = replicate
     (max 1 (unat (configured_num_threads (hardware_concurrency invoc) (cli_calls invoc)))) Waiting"
proof -
  let ?n = "configured_num_threads (hardware_concurrency invoc) (cli_calls invoc)"
  have small: "unat ?n = 0" if "?n < 1"
    using that by simp
  have big: "1 \<le> unat ?n" if "\<not> ?n < 1"
    using that by (metis One_nat_def Suc_leI unat_gt_0 word_less_1)
  obtain o1 g c where "snd p = ThreadedReplayer_new o1 g c"
    "num_threads o1 = (if ?n < 1 then 1 else ?n)"
    using main_start_replayer[OF assms] by blast
  then show ?thesis
    using small big by (simp add: thread_pool_new max_def)
qed

text \<open>
  Claim C8, amended. Every invocation that gets as far as constructing the replayer
  (the arguments parse, \<open>--help\<close> is not among them, and a database path is given)
  creates a pool of \<open>N\<close> worker threads, where \<open>N\<close> is the configured \<open>--num-threads\<close>
  value, by default the number of hardware threads, and at least 1: so at least one
  worker thread, also when \<open>--num-threads 0\<close> is passed or hardware concurrency
  reports 0.
\<close>

theorem worker_pool_size:
  assumes "main_start invoc = Inr p"
  shows "thread_pool (snd p) = replicate
           (max 1 (unat (configured_num_threads (hardware_concurrency invoc) (cli_calls invoc))))
           Waiting \<and>
         threads_created invoc =
           max 1 (unat (configured_num_threads (hardware_concurrency invoc) (cli_calls invoc))) \<and>
         1 \<le> threads_created invoc"
  using thread_pool_main_start[OF assms] assms by (simp add: threads_created_def)

lemma example_invocation_locals:
  "foldl cli_callback (initial_locals (hardware_concurrency example_invocation))
      (cli_calls example_invocation) =
     \<lparr> json_path = ''db.foz'',
       replayer_opts = \<lparr> opt_pipeline_cache = False, on_disk_pipeline_cache_path = [],
                         num_threads = 0, opt_loop_count = 1 \<rparr>,
       main_filter_graphics = {},
       main_filter_compute = {},
       is_ended_state = False \<rparr>"
  by (simp add: example_invocation_def initial_locals_def)

lemma help_invocation_locals:
  "foldl cli_callback (initial_locals (hardware_concurrency help_invocation))
      (cli_calls help_invocation) =
     \<lparr> json_path = [],
       replayer_opts = \<lparr> opt_pipeline_cache = False, on_disk_pipeline_cache_path = [],
                         num_threads = 8, opt_loop_count = 1 \<rparr>,
       main_filter_graphics = {},
       main_filter_compute = {},
       is_ended_state = True \<rparr>"
  by (simp add: help_invocation_def initial_locals_def)

theorem worker_pool_size_witness:
  "(\<exists>p. main_start example_invocation = Inr p) \<and>
   hardware_concurrency example_invocation = 0 \<and>
   configured_num_threads (hardware_concurrency example_invocation) (cli_calls example_invocation) = 0 \<and>
   threads_created example_invocation = 1"
proof -
  have "\<exists>p. main_start example_invocation = Inr p"
    unfolding main_start_def example_invocation_locals Let_def
    by (simp add: example_invocation_def)
  then obtain p where p: "main_start example_invocation = Inr p" by blast
  have c: "configured_num_threads (hardware_concurrency example_invocation)
      (cli_calls example_invocation) = 0"
    by (simp add: example_invocation_def)
  have h: "hardware_concurrency example_invocation = 0"
    by (simp add: example_invocation_def)
  show ?thesis
    using worker_pool_size[OF p] p c h by simp
qed

text \<open>
  The claim as stated speaks of every invocation of the program. An invocation with
  \<open>--help\<close> returns before the replayer is constructed and creates no thread.
\<close>

theorem help_creates_no_thread:
  "main_start help_invocation = Inl EXIT_SUCCESS \<and> threads_created help_invocation = 0"
proof -
  have "main_start help_invocation = Inl EXIT_SUCCESS"
    unfolding main_start_def help_invocation_locals Let_def
    by (simp add: help_invocation_def)
  then show ?thesis by (simp add: threads_created_def)
qed

section \<open>The worker loop: properties\<close>

lemma loop_body_effect:
  assumes "has_loop (tag work_item)"
  shows "trace (loop_body work_item r s) =
      trace s @
      (if deref (registry (tag work_item) s) (hash_map_entry work_item) \<noteq> VK_NULL_HANDLE
       then [Destroy (tag work_item) (deref (registry (tag work_item) s) (hash_map_entry work_item))]
       else []) @
      [Create (tag work_item) (hash work_item) r] @
      (if vk_result r = VK_SUCCESS then [] else [LogE (tag work_item) (hash work_item)])"
    and "deref (registry (tag work_item) (loop_body work_item r s)) (hash_map_entry work_item) =
      (if vk_result r = VK_SUCCESS then vk_object r else VK_NULL_HANDLE)"
    and "vk_result r = VK_SUCCESS \<Longrightarrow>
      output_slots (loop_body work_item r s) (output_ptr work_item) = vk_object r"
    and "loop_count (loop_body work_item r s) = loop_count s"
  using assms
  by (auto simp: has_loop_def loop_body_def registry_def deref_def Let_def
      shader_module_iteration_def graphics_pipeline_iteration_def compute_pipeline_iteration_def)

lemma events_since_append: "trace s' = trace s @ evs \<Longrightarrow> events_since s s' = evs"
  by (simp add: events_since_def)

lemma create_calls_append:
  "create_calls t h (xs @ ys) = create_calls t h xs + create_calls t h ys"
  by (simp add: create_calls_def)

lemma destroy_calls_append:
  "destroy_calls t (xs @ ys) = destroy_calls t xs + destroy_calls t ys"
  by (simp add: destroy_calls_def)

text \<open>
  The \<open>for\<close> loop over a list of indices: its events, and the registry entry after it.
\<close>

lemma loop_events:
  assumes "has_loop (tag work_item)"
  shows "\<exists>evs. trace (foldl (\<lambda>s' i. loop_body work_item (driver i) s') s is) = trace s @ evs \<and>
     create_calls (tag work_item) (hash work_item) evs = length is \<and>
     ((\<forall>i \<in> set is. create_succeeds (driver i)) \<longrightarrow>
        destroy_calls (tag work_item) evs =
          (if deref (registry (tag work_item) s) (hash_map_entry work_item) = VK_NULL_HANDLE
           then length is - 1 else length is) \<and>
        deref (registry (tag work_item)
            (foldl (\<lambda>s' i. loop_body work_item (driver i) s') s is)) (hash_map_entry work_item) =
          (if is = [] then deref (registry (tag work_item) s) (hash_map_entry work_item)
           else vk_object (driver (last is))))"
proof (induction "is" arbitrary: s)
  case Nil
  then show ?case by (simp add: create_calls_def destroy_calls_def)
next
  case (Cons i "is")
  let ?s1 = "loop_body work_item (driver i) s"
  let ?t = "tag work_item" and ?h = "hash work_item" and ?k = "hash_map_entry work_item"
  obtain evs where evs: "trace (foldl (\<lambda>s' i. loop_body work_item (driver i) s') ?s1 is) = trace ?s1 @ evs"
     "create_calls ?t ?h evs = length is"
     "(\<forall>i \<in> set is. create_succeeds (driver i)) \<longrightarrow>
        destroy_calls ?t evs =
          (if deref (registry ?t ?s1) ?k = VK_NULL_HANDLE then length is - 1 else length is) \<and>
        deref (registry ?t (foldl (\<lambda>s' i. loop_body work_item (driver i) s') ?s1 is)) ?k =
          (if is = [] then deref (registry ?t ?s1) ?k else vk_object (driver (last is)))"
    using Cons.IH[of ?s1] by blast
  define evs1 where "evs1 = (if deref (registry ?t s) ?k \<noteq> VK_NULL_HANDLE
       then [Destroy ?t (deref (registry ?t s) ?k)] else []) @
      [Create ?t ?h (driver i)] @
      (if vk_result (driver i) = VK_SUCCESS then [] else [LogE ?t ?h])"
  have t1: "trace ?s1 = trace s @ evs1"
    unfolding evs1_def by (rule loop_body_effect(1)[OF assms])
  have slot1: "deref (registry ?t ?s1) ?k =
      (if vk_result (driver i) = VK_SUCCESS then vk_object (driver i) else VK_NULL_HANDLE)"
    by (rule loop_body_effect(2)[OF assms])
  have c1: "create_calls ?t ?h evs1 = 1"
    by (simp add: create_calls_def evs1_def)
  have d1: "destroy_calls ?t evs1 = (if deref (registry ?t s) ?k \<noteq> VK_NULL_HANDLE then 1 else 0)"
    by (simp add: destroy_calls_def evs1_def)
  have "trace (foldl (\<lambda>s' i. loop_body work_item (driver i) s') s (i # is)) = trace s @ (evs1 @ evs)"
    using evs(1) t1 by simp
  moreover have "create_calls ?t ?h (evs1 @ evs) = length (i # is)"
    by (simp add: create_calls_append c1 evs(2))
  moreover have "destroy_calls ?t (evs1 @ evs) =
          (if deref (registry ?t s) ?k = VK_NULL_HANDLE then length (i # is) - 1 else length (i # is)) \<and>
        deref (registry ?t (foldl (\<lambda>s' i. loop_body work_item (driver i) s') s (i # is))) ?k =
          (if i # is = [] then deref (registry ?t s) ?k else vk_object (driver (last (i # is))))"
    if ok: "\<forall>j \<in> set (i # is). create_succeeds (driver j)"
  proof -
    have oki: "vk_result (driver i) = VK_SUCCESS" "vk_object (driver i) \<noteq> VK_NULL_HANDLE"
      using ok by (simp_all add: create_succeeds_def)
    have rest: "\<forall>j \<in> set is. create_succeeds (driver j)" using ok by simp
    have "destroy_calls ?t evs = length is"
      and "deref (registry ?t (foldl (\<lambda>s' i. loop_body work_item (driver i) s') ?s1 is)) ?k =
          (if is = [] then vk_object (driver i) else vk_object (driver (last is)))"
      using evs(3) rest slot1 oki by simp_all
    then show ?thesis
      by (simp add: destroy_calls_append d1)
  qed
  ultimately show ?case by blast
qed

lemma process_work_item_events:
  assumes "has_loop (tag work_item)"
  shows "create_calls (tag work_item) (hash work_item)
           (events_since s (process_work_item work_item driver s)) = unat (loop_count s)"
    and "(\<forall>i < unat (loop_count s). create_succeeds (driver i)) \<Longrightarrow>
         deref (registry (tag work_item) s) (hash_map_entry work_item) = VK_NULL_HANDLE \<Longrightarrow>
         1 \<le> unat (loop_count s) \<Longrightarrow>
           destroy_calls (tag work_item) (events_since s (process_work_item work_item driver s))
             = unat (loop_count s) - 1 \<and>
           deref (registry (tag work_item) (process_work_item work_item driver s))
               (hash_map_entry work_item) = vk_object (driver (unat (loop_count s) - 1))"
proof -
  let ?is = "[0..<unat (loop_count s)]"
  obtain evs where evs:
     "trace (foldl (\<lambda>s' i. loop_body work_item (driver i) s') s ?is) = trace s @ evs"
     "create_calls (tag work_item) (hash work_item) evs = length ?is"
     "(\<forall>i \<in> set ?is. create_succeeds (driver i)) \<longrightarrow>
        destroy_calls (tag work_item) evs =
          (if deref (registry (tag work_item) s) (hash_map_entry work_item) = VK_NULL_HANDLE
           then length ?is - 1 else length ?is) \<and>
        deref (registry (tag work_item)
            (foldl (\<lambda>s' i. loop_body work_item (driver i) s') s ?is)) (hash_map_entry work_item) =
          (if ?is = [] then deref (registry (tag work_item) s) (hash_map_entry work_item)
           else vk_object (driver (last ?is)))"
    using loop_events[OF assms, of driver s ?is] by blast
  have p: "process_work_item work_item driver s =
      foldl (\<lambda>s' i. loop_body work_item (driver i) s') s ?is"
    using assms by (simp add: process_work_item_def)
  have e': "events_since s (foldl (\<lambda>s' i. loop_body work_item (driver i) s') s ?is) = evs"
    using evs(1) by (rule events_since_append)
  have e: "events_since s (process_work_item work_item driver s) = evs"
    using e' by (simp add: p)
  show "create_calls (tag work_item) (hash work_item)
           (events_since s (process_work_item work_item driver s)) = unat (loop_count s)"
    using evs(2) by (simp add: e)
  show "destroy_calls (tag work_item) (events_since s (process_work_item work_item driver s))
             = unat (loop_count s) - 1 \<and>
           deref (registry (tag work_item) (process_work_item work_item driver s))
               (hash_map_entry work_item) = vk_object (driver (unat (loop_count s) - 1))"
    if "\<forall>i < unat (loop_count s). create_succeeds (driver i)"
       "deref (registry (tag work_item) s) (hash_map_entry work_item) = VK_NULL_HANDLE"
       "1 \<le> unat (loop_count s)"
  proof -
    have ne: "?is \<noteq> []" using that(3) by simp
    have l: "last ?is = unat (loop_count s) - 1"
      using that(3) by simp
    have "\<forall>i \<in> set ?is. create_succeeds (driver i)"
      using that(1) by simp
    with evs(3) that(2) ne l show ?thesis
      unfolding p e' by simp
  qed
qed

text \<open>
  Claim C3, amended. For every deferred work item the loop makes exactly \<open>loop_count\<close>
  passes, each with one create call of the item's category for the item's hash. A pass
  destroys the handle in the registry slot if it is not null, nulls the slot, calls
  create once, and on success writes the new handle into both the caller's output slot
  and the registry slot (on failure it logs the hash and the slot stays null). In
  particular, when \<open>loop_count\<close> is at least 1, for a shader-module item whose slot
  starts null and whose creates all succeed (each handing back a non-null handle),
  there are exactly \<open>loop_count\<close> create calls and \<open>loop_count - 1\<close> destroy calls, and
  the slot ends with the handle of the last create.
\<close>

theorem worker_repetition:
  assumes "has_loop (tag work_item)"
  shows "create_calls (tag work_item) (hash work_item)
           (events_since s (process_work_item work_item driver s)) = unat (loop_count s) \<and>
         events_since s (loop_body work_item r s) =
           (if deref (registry (tag work_item) s) (hash_map_entry work_item) \<noteq> VK_NULL_HANDLE
            then [Destroy (tag work_item)
                    (deref (registry (tag work_item) s) (hash_map_entry work_item))]
            else []) @
           [Create (tag work_item) (hash work_item) r] @
           (if vk_result r = VK_SUCCESS then [] else [LogE (tag work_item) (hash work_item)]) \<and>
         deref (registry (tag work_item) (loop_body work_item r s)) (hash_map_entry work_item) =
           (if vk_result r = VK_SUCCESS then vk_object r else VK_NULL_HANDLE) \<and>
         (vk_result r = VK_SUCCESS \<longrightarrow>
            output_slots (loop_body work_item r s) (output_ptr work_item) = vk_object r) \<and>
         (1 \<le> unat (loop_count s) \<and> tag work_item = RESOURCE_SHADER_MODULE \<and>
          deref (shader_modules s) (hash_map_entry work_item) = VK_NULL_HANDLE \<and>
          (\<forall>i < unat (loop_count s). create_succeeds (driver i)) \<longrightarrow>
            destroy_calls RESOURCE_SHADER_MODULE
               (events_since s (process_work_item work_item driver s)) = unat (loop_count s) - 1 \<and>
            deref (shader_modules (process_work_item work_item driver s)) (hash_map_entry work_item)
               = vk_object (driver (unat (loop_count s) - 1)))"
proof -
  have "destroy_calls RESOURCE_SHADER_MODULE
               (events_since s (process_work_item work_item driver s)) = unat (loop_count s) - 1 \<and>
        deref (shader_modules (process_work_item work_item driver s)) (hash_map_entry work_item)
               = vk_object (driver (unat (loop_count s) - 1))"
    if "1 \<le> unat (loop_count s)" "tag work_item = RESOURCE_SHADER_MODULE"
       "deref (shader_modules s) (hash_map_entry work_item) = VK_NULL_HANDLE"
       "\<forall>i < unat (loop_count s). create_succeeds (driver i)"
    using process_work_item_events(2)[OF assms, of s driver] that
    by (simp add: registry_def)
  moreover have "events_since s (loop_body work_item r s) =
           (if deref (registry (tag work_item) s) (hash_map_entry work_item) \<noteq> VK_NULL_HANDLE
            then [Destroy (tag work_item)
                    (deref (registry (tag work_item) s) (hash_map_entry work_item))]
            else []) @
           [Create (tag work_item) (hash work_item) r] @
           (if vk_result r = VK_SUCCESS then [] else [LogE (tag work_item) (hash work_item)])"
    by (rule events_since_append) (rule loop_body_effect(1)[OF assms])
  ultimately show ?thesis
    using process_work_item_events(1)[OF assms, of s driver] loop_body_effect(2,3)[OF assms, of r s]
    by blast
qed

lemma replicate_two: "replicate 2 x = [x, x]"
  by (simp add: numeral_2_eq_2)

lemma example_queued_facts:
  "loop_count example_queued = 3"
  "shader_modules example_queued = [0xA \<mapsto> VK_NULL_HANDLE]"
  "trace example_queued = []"
  "pipeline_work_queue example_queued = [example_item]"
  "thread_pool example_queued = [Waiting, Waiting]"
  "shutting_down example_queued = False"
  "queued_count example_queued = 1"
  "completed_count example_queued = 0"
  by (simp_all add: example_queued_def enqueue_create_shader_module_def Let_def subscript_def
      example_replayer_def ThreadedReplayer_new_def example_options_def example_item_def
      work_item_for_def replicate_two)

lemma example_item_facts:
  "tag example_item = RESOURCE_SHADER_MODULE" "hash example_item = 0xA"
  "hash_map_entry example_item = 0xA" "output_ptr example_item = 1"
  "has_loop (tag example_item)"
  by (simp_all add: example_item_def work_item_for_def has_loop_def)

theorem worker_repetition_witness:
  "has_loop (tag example_item) \<and>
   unat (loop_count example_queued) = 3 \<and>
   deref (shader_modules example_queued) (hash_map_entry example_item) = VK_NULL_HANDLE \<and>
   create_succeeds (example_driver 0) \<and> create_succeeds (example_driver 1) \<and>
   create_succeeds (example_driver 2) \<and>
   create_calls RESOURCE_SHADER_MODULE 0xA
      (events_since example_queued (process_work_item example_item example_driver example_queued)) = 3 \<and>
   destroy_calls RESOURCE_SHADER_MODULE
      (events_since example_queued (process_work_item example_item example_driver example_queued)) = 2 \<and>
   deref (shader_modules (process_work_item example_item example_driver example_queued)) 0xA = 0x52"
proof -
  have ok: "create_succeeds (example_driver i)" if "i < 3" for i
  proof -
    have "i = 0 \<or> i = 1 \<or> i = 2" using that by auto
    then show ?thesis
      by (auto simp: create_succeeds_def example_driver_def VK_NULL_HANDLE_def)
  qed
  have null: "deref (shader_modules example_queued) (hash_map_entry example_item) = VK_NULL_HANDLE"
    by (simp add: example_queued_facts example_item_facts deref_def)
  have last: "vk_object (example_driver 2) = 0x52"
    by (simp add: example_driver_def)
  have all: "\<forall>i < unat (loop_count example_queued). create_succeeds (example_driver i)"
    using ok by (simp add: example_queued_facts)
  show ?thesis
    using worker_repetition[OF example_item_facts(5), of example_queued example_driver example_success]
      null all ok last
    by (simp add: example_queued_facts example_item_facts has_loop_def)
qed

text \<open>
  The claim as stated has no condition on \<open>loop_count\<close>. With \<open>--loop 0\<close> the loop makes
  no pass: there is no create call and no destroy call (not \<open>loop_count - 1\<close> of them),
  and the slot stays null.
\<close>

theorem zero_loop_count_no_destroy:
  "tag example_item = RESOURCE_SHADER_MODULE \<and>
   loop_count zero_loop_queued = 0 \<and>
   deref (shader_modules zero_loop_queued) (hash_map_entry example_item) = VK_NULL_HANDLE \<and>
   create_calls RESOURCE_SHADER_MODULE (hash example_item)
     (events_since zero_loop_queued (process_work_item example_item example_driver zero_loop_queued)) = 0 \<and>
   int (destroy_calls RESOURCE_SHADER_MODULE
     (events_since zero_loop_queued (process_work_item example_item example_driver zero_loop_queued)))
     \<noteq> int (unat (loop_count zero_loop_queued)) - 1 \<and>
   deref (shader_modules (process_work_item example_item example_driver zero_loop_queued))
     (hash_map_entry example_item) = VK_NULL_HANDLE"
proof -
  have z: "loop_count zero_loop_queued = 0"
     "shader_modules zero_loop_queued = [0xA \<mapsto> VK_NULL_HANDLE]"
    by (simp_all add: zero_loop_queued_def enqueue_create_shader_module_def Let_def subscript_def
      ThreadedReplayer_new_def zero_loop_options_def)
  have p: "process_work_item example_item example_driver zero_loop_queued = zero_loop_queued"
    by (simp add: process_work_item_def z)
  show ?thesis
    by (simp add: p z example_item_facts events_since_def create_calls_def destroy_calls_def deref_def)
qed




section \<open>Steps of the threads\<close>

lemma loop_body_frame:
  "pipeline_work_queue (loop_body work_item r s) = pipeline_work_queue s"
  "queued_count (loop_body work_item r s) = queued_count s"
  "completed_count (loop_body work_item r s) = completed_count s"
  "thread_pool (loop_body work_item r s) = thread_pool s"
  "shutting_down (loop_body work_item r s) = shutting_down s"
  "loop_count (loop_body work_item r s) = loop_count s"
  "filter_graphics (loop_body work_item r s) = filter_graphics s"
  "filter_compute (loop_body work_item r s) = filter_compute s"
  by (cases "tag work_item";
      simp add: loop_body_def shader_module_iteration_def graphics_pipeline_iteration_def
        compute_pipeline_iteration_def Let_def)+

text \<open>What a step of a worker does to the queue, the counters and the pool.\<close>

lemma worker_step_cases:
  assumes "worker_step w r s = Some s'"
  obtains
    (leave) "w < length (thread_pool s)" "thread_pool s ! w = Waiting" "shutting_down s"
      "s' = (worker_exit s)\<lparr>thread_pool := (thread_pool s)[w := Finished]\<rparr>"
  | (pop) work_item rest where "w < length (thread_pool s)" "thread_pool s ! w = Waiting"
      "\<not> shutting_down s" "pipeline_work_queue s = work_item # rest"
      "s' = s\<lparr>pipeline_work_queue := rest, thread_pool := (thread_pool s)[w := Working work_item 0]\<rparr>"
  | (pass) work_item i where "w < length (thread_pool s)" "thread_pool s ! w = Working work_item i"
      "has_loop (tag work_item)" "i < loop_count s"
      "s' = (loop_body work_item r s)\<lparr>thread_pool := (thread_pool s)[w := Working work_item (i + 1)]\<rparr>"
  | (complete) work_item i where "w < length (thread_pool s)" "thread_pool s ! w = Working work_item i"
      "\<not> (has_loop (tag work_item) \<and> i < loop_count s)"
      "s' = (mark_completed s)\<lparr>thread_pool := (thread_pool s)[w := Waiting]\<rparr>"
  using assms
  by (auto simp: worker_step_def split: if_splits worker.splits list.splits)

lemma worker_step_filters:
  assumes "worker_step w r s = Some s'"
  shows "filter_graphics s' = filter_graphics s" "filter_compute s' = filter_compute s"
  using assms
  by (cases rule: worker_step_cases;
      simp add: worker_exit_def mark_completed_def loop_body_frame)+

lemma replay_record_push:
  assumes "replay_record t h info out env r s = Inr (ok, s')" and "has_loop t"
  shows "(is_push_action s (Parse t h (ParseCalls info out)) \<and>
          pipeline_work_queue s' = pipeline_work_queue s @ [work_item_for t h info out] \<and>
          queued_count s' = queued_count s + 1) \<or>
         (\<not> is_push_action s (Parse t h (ParseCalls info out)) \<and>
          pipeline_work_queue s' = pipeline_work_queue s \<and> queued_count s' = queued_count s)"
    and "completed_count s' = completed_count s" and "thread_pool s' = thread_pool s"
    and "shutting_down s' = shutting_down s" and "loop_count s' = loop_count s"
    and "filter_graphics s' = filter_graphics s" and "filter_compute s' = filter_compute s"
  using assms
  by (auto simp: has_loop_def replay_record_def enqueue_create_shader_module_def
      enqueue_create_graphics_pipeline_result enqueue_create_compute_pipeline_result
      work_item_for_def Let_def split: if_splits)

lemma set_application_info_frame:
  assumes "set_application_info env s = Inr s' \<or> set_application_info env s = Inl (Thrown s')"
  shows "pipeline_work_queue s' = pipeline_work_queue s" "queued_count s' = queued_count s"
    "completed_count s' = completed_count s" "thread_pool s' = thread_pool s"
    "shutting_down s' = shutting_down s" "loop_count s' = loop_count s"
    "filter_graphics s' = filter_graphics s" "filter_compute s' = filter_compute s"
  using assms
  by (auto simp: set_application_info_def load_on_disk_cache_def Let_def
      split: if_splits prod.splits disk_file.splits sum.splits)

lemma replay_record_no_push:
  assumes "replay_record t h info out env r s = Inr (ok, s')" and "\<not> has_loop t"
  shows "pipeline_work_queue s' = pipeline_work_queue s" "queued_count s' = queued_count s"
    "completed_count s' = completed_count s" "thread_pool s' = thread_pool s"
    "shutting_down s' = shutting_down s" "loop_count s' = loop_count s"
    "filter_graphics s' = filter_graphics s" "filter_compute s' = filter_compute s"
  using assms set_application_info_frame[of env s]
  by (cases t;
      auto simp: has_loop_def replay_record_def enqueue_create_sampler_result
        enqueue_create_descriptor_set_layout_result enqueue_create_pipeline_layout_result
        enqueue_create_render_pass_result split: if_splits sum.splits)+

text \<open>Only \<open>set_application_info\<close> throws.\<close>

lemma replay_record_thrown:
  assumes "replay_record t h info out env r s = Inl (Thrown s1)"
  shows "t = RESOURCE_APPLICATION_INFO" and "set_application_info env s = Inl (Thrown s1)"
  using assms
  by (cases t; simp add: replay_record_def split: sum.splits)+

lemma driver_step_parse_calls:
  assumes "driver_step env r (Parse t h (ParseCalls info out) # rest, s) = Some (d', s')"
  obtains (returns) ok where "replay_record t h info out env r s = Inr (ok, s')" "d' = rest"
  | (throws) s1 where "replay_record t h info out env r s = Inl (Thrown s1)" "d' = rest"
      "s' = s1\<lparr>trace := trace s1 @ [LogParseException t h]\<rparr>"
  using assms by (auto split: sum.splits failure.splits)

lemma not_push_application_info:
  "\<not> is_push_action s (Parse RESOURCE_APPLICATION_INFO h p)"
  by (cases p) simp_all

text \<open>What a step of the main thread does to the queue, the counters and the pool.\<close>

lemma driver_step_cases:
  assumes "driver_step env r (d, s) = Some (d', s')"
  obtains
    (push) t h info out where "d = Parse t h (ParseCalls info out) # d'" "has_loop t"
      "pipeline_work_queue s' = pipeline_work_queue s @ [work_item_for t h info out]"
      "queued_count s' = queued_count s + 1" "completed_count s' = completed_count s"
      "thread_pool s' = thread_pool s" "shutting_down s' = shutting_down s"
      "loop_count s' = loop_count s"
      "is_push_action s (Parse t h (ParseCalls info out))"
      "filter_graphics s' = filter_graphics s" "filter_compute s' = filter_compute s"
  | (skip) a where "d = a # d'" "a \<noteq> Sync"
      "\<not> is_push_action s a"
      "pipeline_work_queue s' = pipeline_work_queue s"
      "queued_count s' = queued_count s" "completed_count s' = completed_count s"
      "thread_pool s' = thread_pool s" "shutting_down s' = shutting_down s"
      "loop_count s' = loop_count s"
      "filter_graphics s' = filter_graphics s" "filter_compute s' = filter_compute s"
  | (sync) "d = Sync # d'" "queued_count s = completed_count s" "s' = s"
  | (leave) e rest where "d = Return e # rest" "d' = []" "s' = s\<lparr>shutting_down := True\<rparr>"
proof (cases d)
  case Nil
  with assms show ?thesis by simp
next
  case (Cons a rest)
  show ?thesis
  proof (cases a)
    case (Parse t h p)
    show ?thesis
    proof (cases p)
      case ParseThrows
      with assms Cons Parse show ?thesis
        by (intro skip[of a]) auto
    next
      case (ParseCalls info out)
      from assms Cons Parse ParseCalls
      have "driver_step env r (Parse t h (ParseCalls info out) # rest, s) = Some (d', s')"
        by simp
      then show ?thesis
      proof (cases rule: driver_step_parse_calls)
        case (returns ok)
        note rr = returns(1) and d' = returns(2)
        show ?thesis
        proof (cases "has_loop t")
          case True
          from replay_record_push(1)[OF rr True] show ?thesis
          proof (elim disjE conjE)
            assume "is_push_action s (Parse t h (ParseCalls info out))"
              "pipeline_work_queue s' = pipeline_work_queue s @ [work_item_for t h info out]"
              "queued_count s' = queued_count s + 1"
            with replay_record_push(2-7)[OF rr True] Cons Parse ParseCalls d' True show ?thesis
              by (intro push[of t h info out]) auto
          next
            assume "\<not> is_push_action s (Parse t h (ParseCalls info out))"
              "pipeline_work_queue s' = pipeline_work_queue s" "queued_count s' = queued_count s"
            with replay_record_push(2-7)[OF rr True] Cons Parse ParseCalls d' show ?thesis
              by (intro skip[of a]) auto
          qed
        next
          case False
          then have "\<not> is_push_action s (Parse t h (ParseCalls info out))"
            by (auto simp: has_loop_def)
          with replay_record_no_push[OF rr False] Cons Parse ParseCalls d' show ?thesis
            by (intro skip[of a]) auto
        qed
      next
        case (throws s1)
        note th = replay_record_thrown[OF throws(1)]
        note fr = set_application_info_frame[OF disjI2, OF th(2)]
        from fr throws(2,3) Cons Parse ParseCalls th(1) not_push_application_info[of s h p]
        show ?thesis
          by (intro skip[of a]) auto
      qed
    qed
  next
    case Sync
    with assms Cons show ?thesis by (intro sync) (auto split: if_splits)
  next
    case Report
    with assms Cons show ?thesis by (intro skip[of a]) auto
  next
    case (Return e)
    with assms Cons show ?thesis by (intro leave[of e rest]) auto
  qed
qed

lemma driver_step_filters:
  assumes "driver_step env r (d, s) = Some (d', s')"
  shows "filter_graphics s' = filter_graphics s" "filter_compute s' = filter_compute s"
  using assms by (cases rule: driver_step_cases; simp)+

lemma is_push_action_cong:
  assumes "filter_graphics s' = filter_graphics s" and "filter_compute s' = filter_compute s"
  shows "is_push_action s' a = is_push_action s a"
  using assms
  by (cases "(s, a)" rule: is_push_action.cases)
     (simp_all add: graphics_filter_passes_def compute_filter_passes_def)

lemma pending_pushes_cong:
  assumes "filter_graphics s' = filter_graphics s" and "filter_compute s' = filter_compute s"
  shows "pending_pushes s' d = pending_pushes s d"
proof -
  have "is_push_action s' = is_push_action s"
    using is_push_action_cong[OF assms] by (intro ext)
  then show ?thesis by (simp add: pending_pushes_def)
qed


section \<open>The two counters\<close>

lemma unat_word_succ:
  fixes x :: u32
  assumes "unat x < n" "n < 2 ^ 32"
  shows "unat (x + 1) = unat x + 1"
proof -
  have "unat x + unat (1 :: u32) < 2 ^ LENGTH(32)" using assms by simp
  then show ?thesis by (simp add: unat_add_lem[THEN iffD1])
qed

lemma length_filter_update:
  "w < length xs \<Longrightarrow>
   length (filter P (xs[w := y])) + (if P (xs ! w) then 1 else 0) =
   length (filter P xs) + (if P y then 1 else 0)"
proof (induction xs arbitrary: w)
  case Nil
  then show ?case by simp
next
  case (Cons x xs)
  show ?case
  proof (cases w)
    case 0
    then show ?thesis by simp
  next
    case (Suc v)
    with Cons.prems have "v < length xs" by simp
    from Cons.IH[OF this] Suc show ?thesis by simp
  qed
qed

lemma outstanding_pool_update:
  assumes "w < length (thread_pool s)"
    and "pipeline_work_queue s' = q'" and "thread_pool s' = (thread_pool s)[w := y]"
  shows "outstanding s' + (if is_working (thread_pool s ! w) then 1 else 0) =
     length q' + length (filter is_working (thread_pool s)) + (if is_working y then 1 else 0)"
  using length_filter_update[OF assms(1), of is_working y] assms(2,3)
  by (simp add: outstanding_def)

lemma counters_inv_worker_step:
  assumes N: "N < 2 ^ 32" and inv: "counters_inv N (d, s)" and st: "worker_step w r s = Some s'"
  shows "counters_inv N (d, s')" and "queued_count s' = queued_count s"
    and "completed_count s \<le> completed_count s'"
proof -
  from inv have q0: "unat (queued_count s) + pending_pushes s d \<le> N"
    and c: "unat (completed_count s) + outstanding s = unat (queued_count s)"
    by (simp_all add: counters_inv_def)
  have same: "pending_pushes s' d = pending_pushes s d"
    using worker_step_filters[OF st] by (rule pending_pushes_cong)
  from q0 same have q: "unat (queued_count s) + pending_pushes s' d \<le> N" by simp
  have "counters_inv N (d, s') \<and> queued_count s' = queued_count s \<and>
      completed_count s \<le> completed_count s'"
    using st
  proof (cases rule: worker_step_cases)
    case leave
    have "outstanding s' = outstanding s"
      using outstanding_pool_update[OF leave(1), of s' "pipeline_work_queue s" Finished] leave
      by (simp add: worker_exit_def outstanding_def)
    then show ?thesis using q c leave by (simp add: counters_inv_def worker_exit_def)
  next
    case (pop work_item rest)
    have "outstanding s' = outstanding s"
      using outstanding_pool_update[OF pop(1), of s' rest "Working work_item 0"] pop
      by (simp add: outstanding_def)
    then show ?thesis using q c pop by (simp add: counters_inv_def)
  next
    case (pass work_item i)
    have "outstanding s' = outstanding s"
      using outstanding_pool_update[OF pass(1), of s' "pipeline_work_queue s"
          "Working work_item (i + 1)"] pass
      by (simp add: outstanding_def loop_body_frame)
    then show ?thesis using q c pass by (simp add: counters_inv_def loop_body_frame)
  next
    case (complete work_item i)
    have o: "outstanding s' + 1 = outstanding s"
      using outstanding_pool_update[OF complete(1), of s' "pipeline_work_queue s" Waiting] complete
      by (simp add: outstanding_def mark_completed_def)
    then have "unat (completed_count s) < unat (queued_count s)" using c by simp
    moreover have "unat (queued_count s) \<le> N" using q by simp
    ultimately have u: "unat (completed_count s + 1) = unat (completed_count s) + 1"
      using unat_word_succ[of "completed_count s" "unat (queued_count s)"] N by simp
    have cc: "completed_count s' = completed_count s + 1" "queued_count s' = queued_count s"
      using complete by (simp_all add: mark_completed_def)
    show ?thesis
      using q c o u by (simp add: counters_inv_def cc word_le_nat_alt)
  qed
  then show "counters_inv N (d, s')" and "queued_count s' = queued_count s"
    and "completed_count s \<le> completed_count s'" by simp_all
qed

lemma pending_pushes_Cons:
  "pending_pushes s (a # d) = (if is_push_action s a then 1 else 0) + pending_pushes s d"
  by (simp add: pending_pushes_def)

lemma counters_inv_driver_step:
  assumes N: "N < 2 ^ 32" and inv: "counters_inv N (d, s)"
    and st: "driver_step env r (d, s) = Some (d', s')"
  shows "counters_inv N (d', s')" and "queued_count s \<le> queued_count s'"
    and "completed_count s' = completed_count s"
proof -
  from inv have q: "unat (queued_count s) + pending_pushes s d \<le> N"
    and c: "unat (completed_count s) + outstanding s = unat (queued_count s)"
    by (simp_all add: counters_inv_def)
  have same: "pending_pushes s' d' = pending_pushes s d'"
    using driver_step_filters[OF st] by (rule pending_pushes_cong)
  have "counters_inv N (d', s') \<and> queued_count s \<le> queued_count s' \<and>
      completed_count s' = completed_count s"
    using st
  proof (cases rule: driver_step_cases)
    case (push t h info out)
    have p: "pending_pushes s d = 1 + pending_pushes s' d'"
      using push(1,9) same by (simp add: pending_pushes_Cons)
    then have "unat (queued_count s) < N" using q by simp
    then have u: "unat (queued_count s + 1) = unat (queued_count s) + 1"
      using unat_word_succ[of "queued_count s" N] N by simp
    have "outstanding s' = outstanding s + 1"
      using push by (simp add: outstanding_def)
    then show ?thesis
      using q c p u push by (simp add: counters_inv_def word_le_nat_alt)
  next
    case (skip a)
    have "pending_pushes s' d' \<le> pending_pushes s d"
      using skip(1) same by (simp add: pending_pushes_Cons)
    moreover have "outstanding s' = outstanding s"
      using skip by (simp add: outstanding_def)
    ultimately show ?thesis
      using q c skip by (simp add: counters_inv_def)
  next
    case sync
    then show ?thesis using q c by (simp add: counters_inv_def pending_pushes_Cons)
  next
    case (leave e rest)
    have "outstanding s' = outstanding s" using leave by (simp add: outstanding_def)
    then show ?thesis
      using q c leave by (simp add: counters_inv_def pending_pushes_def)
  qed
  then show "counters_inv N (d', s')" and "queued_count s \<le> queued_count s'"
    and "completed_count s' = completed_count s" by simp_all
qed

lemma working_is_outstanding:
  assumes "w < length (thread_pool s)" and "thread_pool s ! w = Working work_item i"
  shows "0 < outstanding s"
proof -
  have "thread_pool s ! w \<in> set (thread_pool s)"
    using assms(1) by (rule nth_mem)
  then have "thread_pool s ! w \<in> set (filter is_working (thread_pool s))"
    using assms(2) by simp
  then have "filter is_working (thread_pool s) \<noteq> []"
    by (auto simp: filter_empty_conv)
  then show ?thesis by (simp add: outstanding_def)
qed

lemma counters_inv_new:
  "counters_inv (pending_pushes (ThreadedReplayer_new o1 g c) d) (d, ThreadedReplayer_new o1 g c)"
  by (simp add: counters_inv_def outstanding_def ThreadedReplayer_new_def)

section \<open>A run with \<open>2 ^ 32\<close> shader modules\<close>

lemma play_entries_sm:
  "play_entries RESOURCE_SHADER_MODULE (map sm_entry ks) = (map sm_parse ks, True)"
  by (induction ks) (simp_all add: sm_entry_def sm_parse_def)

lemma big_invocation_locals:
  "foldl cli_callback (initial_locals (hardware_concurrency (big_invocation g)))
      (cli_calls (big_invocation g)) =
     \<lparr> json_path = ''db.foz'',
       replayer_opts = \<lparr> opt_pipeline_cache = False, on_disk_pipeline_cache_path = [],
                         num_threads = 2, opt_loop_count = 1 \<rparr>,
       main_filter_graphics = {},
       main_filter_compute = {},
       is_ended_state = False \<rparr>"
  by (simp add: big_invocation_def initial_locals_def)

lemma play_tags_big_archive:
  "play_tags (big_archive g) playback_order = big_script g"
  by (simp add: playback_order_def big_archive_def play_entries_sm big_script_def big_tail_def
      gp_parse_def)

lemma main_start_big_invocation:
  "main_start (big_invocation g) = Inr (big_script g, big_start)"
proof -
  have a: "the_archive (big_invocation g) = big_archive g" "prepare_ok (big_invocation g)"
    "cli_parse_ok (big_invocation g)"
    by (simp_all add: big_invocation_def)
  show ?thesis
    unfolding main_start_def big_invocation_locals Let_def
    by (simp add: a play_tags_big_archive big_start_def)
qed

lemma big_state_start:
  "big_state (big_script g) [] 0 0 [Waiting, Waiting] 0 0 (big_script g, big_start)"
  by (simp add: big_state_def big_start_def ThreadedReplayer_new_def successful_creates_def
      replicate_two)

text \<open>Single steps of that run, on the part of the state that \<open>big_state\<close> describes.\<close>

lemma big_application_info:
  assumes "reachable p0 p"
    and "big_state (Parse RESOURCE_APPLICATION_INFO 0 (ParseCalls 0 0) # d) q qc cc pool smc k p"
    and "\<not> device_was_init (snd p)" and "\<not> opt_pipeline_cache (opts (snd p))"
  shows "\<exists>p'. reachable p0 p' \<and> big_state d q qc cc pool smc k p'"
proof -
  obtain s where p: "p = (Parse RESOURCE_APPLICATION_INFO 0 (ParseCalls 0 0) # d, s)"
    using assms(2) by (cases p) (auto simp: big_state_def)
  let ?s' = "s\<lparr>device_was_init := True\<rparr>"
  have "set_application_info example_env s = Inr ?s'"
    using assms(3,4) by (simp add: set_application_info_def p example_env_def)
  then have "driver_step example_env example_success p = Some (d, ?s')"
    by (simp add: p replay_record_def)
  then have "step p (d, ?s')" by (rule step.main_thread)
  then have "reachable p0 (d, ?s')" using assms(1) reachable.next_step by blast
  moreover have "big_state d q qc cc pool smc k (d, ?s')"
    using assms(2) by (simp add: big_state_def p)
  ultimately show ?thesis by blast
qed

lemma big_push_shader_module:
  assumes "reachable p0 p" and "big_state (sm_parse n # d) q qc cc pool smc k p"
  shows "\<exists>p'. reachable p0 p' \<and> big_state d (q @ [sm_item n]) (qc + 1) cc pool smc k p'"
proof -
  obtain s where p: "p = (sm_parse n # d, s)"
    using assms(2) by (cases p) (auto simp: big_state_def)
  let ?s' = "snd (enqueue_create_shader_module (of_nat n) n n s)"
  have "driver_step example_env example_success p = Some (d, ?s')"
    by (simp add: p sm_parse_def replay_record_def enqueue_create_shader_module_def Let_def)
  then have "step p (d, ?s')" by (rule step.main_thread)
  then have "reachable p0 (d, ?s')" using assms(1) reachable.next_step by blast
  moreover have "big_state d (q @ [sm_item n]) (qc + 1) cc pool smc k (d, ?s')"
    using assms(2)
    by (simp add: big_state_def p enqueue_create_shader_module_def Let_def sm_item_def
        work_item_for_def)
  ultimately show ?thesis by blast
qed

lemma big_push_graphics_pipeline:
  assumes "reachable p0 p" and "big_state (gp_parse # d) q qc cc pool smc k p"
  shows "\<exists>p'. reachable p0 p' \<and> big_state d (q @ [gp_item]) (qc + 1) cc pool smc k p'"
proof -
  obtain s where p: "p = (gp_parse # d, s)"
    using assms(2) by (cases p) (auto simp: big_state_def)
  have pass: "graphics_filter_passes s 0xC"
    using assms(2) by (simp add: big_state_def p graphics_filter_passes_def)
  let ?s' = "snd (enqueue_create_graphics_pipeline 0xC big_count big_count s)"
  have "driver_step example_env example_success p = Some (d, ?s')"
    by (simp add: p gp_parse_def replay_record_def enqueue_create_graphics_pipeline_result)
  then have "step p (d, ?s')" by (rule step.main_thread)
  then have "reachable p0 (d, ?s')" using assms(1) reachable.next_step by blast
  moreover have "big_state d (q @ [gp_item]) (qc + 1) cc pool smc k (d, ?s')"
    using assms(2) pass
    by (simp add: big_state_def p enqueue_create_graphics_pipeline_result gp_item_def)
  ultimately show ?thesis by blast
qed

lemma big_sync:
  assumes "reachable p0 p" and "big_state (Sync # d) q qc qc pool smc k p"
  shows "\<exists>p'. reachable p0 p' \<and> big_state d q qc qc pool smc k p'"
proof -
  obtain s where p: "p = (Sync # d, s)"
    using assms(2) by (cases p) (auto simp: big_state_def)
  have "driver_step example_env example_success p = Some (d, s)"
    using assms(2) by (simp add: p big_state_def)
  then have "step p (d, s)" by (rule step.main_thread)
  then have "reachable p0 (d, s)" using assms(1) reachable.next_step by blast
  moreover have "big_state d q qc qc pool smc k (d, s)"
    using assms(2) by (simp add: big_state_def p)
  ultimately show ?thesis by blast
qed

lemma big_pop:
  assumes "reachable p0 p" and "big_state d (work_item # q) qc cc pool smc k p"
    and "w < length pool" and "pool ! w = Waiting"
  shows "\<exists>p'. reachable p0 p' \<and> big_state d q qc cc (pool[w := Working work_item 0]) smc k p'"
proof -
  obtain s where p: "p = (d, s)"
    using assms(2) by (cases p) (auto simp: big_state_def)
  let ?s' = "s\<lparr>pipeline_work_queue := q, thread_pool := (thread_pool s)[w := Working work_item 0]\<rparr>"
  have "worker_step w example_success s = Some ?s'"
    using assms(2,3,4) by (simp add: worker_step_def big_state_def p)
  then have "step p (d, ?s')" unfolding p by (rule step.worker_thread)
  then have "reachable p0 (d, ?s')" using assms(1) reachable.next_step by blast
  moreover have "big_state d q qc cc (pool[w := Working work_item 0]) smc k (d, ?s')"
    using assms(2) by (simp add: big_state_def p)
  ultimately show ?thesis by blast
qed

lemma successful_creates_append:
  "successful_creates t (xs @ ys) = successful_creates t xs + successful_creates t ys"
  by (simp add: successful_creates_def)

lemma big_pass_shader_module:
  assumes "reachable p0 p" and "big_state d q qc cc pool smc k p"
    and "w < length pool" and "pool ! w = Working (sm_item n) 0"
  shows "\<exists>p'. reachable p0 p' \<and>
     big_state d q qc cc (pool[w := Working (sm_item n) 1]) (smc + 1) (Suc k) p'"
proof -
  obtain s where p: "p = (d, s)"
    using assms(2) by (cases p) (auto simp: big_state_def)
  have hl: "has_loop (tag (sm_item n))" and t: "tag (sm_item n) = RESOURCE_SHADER_MODULE"
    by (simp_all add: sm_item_def work_item_for_def has_loop_def)
  let ?b = "loop_body (sm_item n) example_success s"
  let ?s' = "?b\<lparr>thread_pool := (thread_pool s)[w := Working (sm_item n) (0 + 1)]\<rparr>"
  have "worker_step w example_success s = Some ?s'"
    using assms(2,3,4) hl by (simp add: worker_step_def big_state_def p)
  then have "step p (d, ?s')" unfolding p by (rule step.worker_thread)
  then have r: "reachable p0 (d, ?s')" using assms(1) reachable.next_step by blast
  have ok: "vk_result example_success = VK_SUCCESS" by (simp add: example_success_def)
  have tr: "successful_creates RESOURCE_SHADER_MODULE (trace ?b) =
      Suc (successful_creates RESOURCE_SHADER_MODULE (trace s))"
    unfolding loop_body_effect(1)[OF hl] successful_creates_append
    by (simp add: successful_creates_def ok t)
  have cnt: "shader_module_count ?b = shader_module_count s + 1"
    by (simp add: loop_body_def t shader_module_iteration_def Let_def ok)
  have fl: "filter_graphics ?b = filter_graphics s" "filter_compute ?b = filter_compute s"
    by (simp_all add: loop_body_def t shader_module_iteration_def Let_def ok)
  have "big_state d q qc cc (pool[w := Working (sm_item n) 1]) (smc + 1) (Suc k) (d, ?s')"
    using assms(2) by (simp add: big_state_def p loop_body_frame tr cnt fl)
  with r show ?thesis by blast
qed

lemma big_complete:
  assumes "reachable p0 p" and "big_state d q qc cc pool smc k p"
    and "w < length pool" and "pool ! w = Working work_item 1"
  shows "\<exists>p'. reachable p0 p' \<and> big_state d q qc (cc + 1) (pool[w := Waiting]) smc k p'"
proof -
  obtain s where p: "p = (d, s)"
    using assms(2) by (cases p) (auto simp: big_state_def)
  let ?s' = "(mark_completed s)\<lparr>thread_pool := (thread_pool s)[w := Waiting]\<rparr>"
  have "worker_step w example_success s = Some ?s'"
    using assms(2,3,4) by (simp add: worker_step_def big_state_def p)
  then have "step p (d, ?s')" unfolding p by (rule step.worker_thread)
  then have "reachable p0 (d, ?s')" using assms(1) reachable.next_step by blast
  moreover have "big_state d q qc (cc + 1) (pool[w := Waiting]) smc k (d, ?s')"
    using assms(2) by (simp add: big_state_def p mark_completed_def)
  ultimately show ?thesis by blast
qed

text \<open>Worker 0 takes a shader-module item from the queue and works it off.\<close>

lemma big_work_off:
  assumes "reachable p0 p"
    and "big_state d (sm_item n # q) qc cc [Waiting, x] smc k p"
  shows "\<exists>p'. reachable p0 p' \<and> big_state d q qc (cc + 1) [Waiting, x] (smc + 1) (Suc k) p'"
proof -
  obtain p1 where p1: "reachable p0 p1"
      "big_state d q qc cc [Working (sm_item n) 0, x] smc k p1"
    using big_pop[OF assms, of 0] by auto
  obtain p2 where p2: "reachable p0 p2"
      "big_state d q qc cc [Working (sm_item n) 1, x] (smc + 1) (Suc k) p2"
    using big_pass_shader_module[OF p1, of 0 n] by auto
  show ?thesis
    using big_complete[OF p2, of 0 "sm_item n"] by auto
qed

text \<open>The main thread pushes the shader modules while no worker gets to run.\<close>

lemma big_push_all:
  assumes "n \<le> big_count"
  shows "\<exists>p. reachable (big_script g, big_start) p \<and>
     big_state (map sm_parse [n..<big_count] @ big_tail g) (map sm_item [0..<n]) (of_nat n) 0
       [Waiting, Waiting] 0 0 p"
  using assms
proof (induction n)
  case 0
  have fresh: "\<not> device_was_init (snd (big_script g, big_start))"
    "\<not> opt_pipeline_cache (opts (snd (big_script g, big_start)))"
    by (simp_all add: big_start_def ThreadedReplayer_new_def)
  have st: "big_state (Parse RESOURCE_APPLICATION_INFO 0 (ParseCalls 0 0) #
       (map sm_parse [0..<big_count] @ big_tail g)) [] 0 0 [Waiting, Waiting] 0 0
       (big_script g, big_start)"
    using big_state_start[of g] by (simp add: big_script_def)
  from big_application_info[OF reachable.start st fresh] show ?case by simp
next
  case (Suc n)
  then obtain p where p: "reachable (big_script g, big_start) p"
     "big_state (map sm_parse [n..<big_count] @ big_tail g) (map sm_item [0..<n]) (of_nat n) 0
       [Waiting, Waiting] 0 0 p"
    by auto
  have "[n..<big_count] = n # [Suc n..<big_count]"
    using Suc.prems by (simp add: upt_conv_Cons)
  with p(2) have "big_state (sm_parse n # (map sm_parse [Suc n..<big_count] @ big_tail g))
      (map sm_item [0..<n]) (of_nat n) 0 [Waiting, Waiting] 0 0 p"
    by simp
  from big_push_shader_module[OF p(1) this] show ?case
    by (simp add: add.commute)
qed

text \<open>Worker 0 works off the shader modules one after the other.\<close>

lemma big_drain:
  assumes "reachable p0 p"
    and "big_state d (map sm_item [0..<big_count] @ q) qc 0 [Waiting, Waiting] 0 0 p"
    and "m \<le> big_count"
  shows "\<exists>p'. reachable p0 p' \<and>
     big_state d (map sm_item [m..<big_count] @ q) qc (of_nat m) [Waiting, Waiting] (of_nat m) m p'"
  using assms(3)
proof (induction m)
  case 0
  with assms(1,2) show ?case by (intro exI[of _ p]) simp
next
  case (Suc m)
  then obtain p1 where p1: "reachable p0 p1"
     "big_state d (map sm_item [m..<big_count] @ q) qc (of_nat m) [Waiting, Waiting] (of_nat m) m p1"
    by auto
  have "[m..<big_count] = m # [Suc m..<big_count]"
    using Suc.prems by (simp add: upt_conv_Cons)
  with p1(2) have "big_state d (sm_item m # (map sm_item [Suc m..<big_count] @ q)) qc (of_nat m)
      [Waiting, Waiting] (of_nat m) m p1"
    by simp
  from big_work_off[OF p1(1) this] show ?case
    by (simp add: add.commute)
qed

lemma of_nat_big_count: "(of_nat big_count :: u32) = 0"
  by (simp add: big_count_def)

section \<open>A small run\<close>

lemma play_tags_example_archive:
  "play_tags example_archive playback_order = example_script"
  by (simp add: playback_order_def example_archive_def example_script_def)

lemma main_start_example_invocation:
  "main_start example_invocation = Inr (example_script, example_start)"
proof -
  have a: "the_archive example_invocation = example_archive" "prepare_ok example_invocation"
    "cli_parse_ok example_invocation"
    by (simp_all add: example_invocation_def)
  show ?thesis
    unfolding main_start_def example_invocation_locals Let_def
    by (simp add: a play_tags_example_archive example_start_def)
qed

lemma example_start_facts:
  "\<not> device_was_init example_start" "\<not> opt_pipeline_cache (opts example_start)"
  "queued_count example_start = 0" "completed_count example_start = 0"
  "pipeline_work_queue example_start = []" "thread_pool example_start = [Waiting]"
  "loop_count example_start = 1" "\<not> shutting_down example_start"
  "trace example_start = []" "shader_module_count example_start = 0"
  "shader_module_ns example_start = 0"
  by (simp_all add: example_start_def ThreadedReplayer_new_def)

lemma reachable_example_pushed: "reachable (example_script, example_start) example_pushed"
proof -
  let ?s1 = "example_start\<lparr>device_was_init := True\<rparr>"
  have "set_application_info example_env example_start = Inr ?s1"
    by (simp add: set_application_info_def example_start_facts example_env_def)
  then have "driver_step example_env example_success (example_script, example_start)
      = Some (tl example_script, ?s1)"
    by (simp add: example_script_def replay_record_def)
  then have "step (example_script, example_start) (tl example_script, ?s1)"
    by (rule step.main_thread)
  then have r1: "reachable (example_script, example_start) (tl example_script, ?s1)"
    using reachable.start reachable.next_step by blast
  have "driver_step example_env example_success (tl example_script, ?s1) = Some example_pushed"
    by (simp add: example_script_def replay_record_def example_pushed_def split: prod.splits)
  then have "step (tl example_script, ?s1) example_pushed"
    by (rule step.main_thread)
  with r1 show ?thesis by (rule reachable.next_step)
qed

text \<open>
  The claim as stated has no bound on the number of pushes. After \<open>2 ^ 32\<close> pushes
  \<open>queued_count\<close> is 0 again, and with one item completed \<open>completed_count\<close> is larger.
\<close>

lemma big_run_counters_wrap:
  "\<exists>p. reachable (big_script False, big_start) p \<and>
     queued_count (snd p) = 0 \<and> completed_count (snd p) = 1"
proof -
  obtain p where p: "reachable (big_script False, big_start) p"
     "big_state (map sm_parse [big_count..<big_count] @ big_tail False)
        (map sm_item [0..<big_count]) (of_nat big_count) 0 [Waiting, Waiting] 0 0 p"
    using big_push_all[of big_count False] by auto
  have "0 < big_count" by (simp add: big_count_def)
  then have "[0..<big_count] = 0 # [Suc 0..<big_count]"
    by (simp add: upt_conv_Cons)
  with p(2) have "big_state (big_tail False) (sm_item 0 # map sm_item [Suc 0..<big_count])
      0 0 [Waiting, Waiting] 0 0 p"
    by (simp add: of_nat_big_count)
  from big_work_off[OF p(1) this] show ?thesis
    by (auto simp: big_state_def)
qed

theorem counters_wrap_around:
  "main_start (big_invocation False) = Inr (big_script False, big_start) \<and>
   \<not> (\<forall>p. reachable (big_script False, big_start) p \<longrightarrow>
          completed_count (snd p) \<le> queued_count (snd p))"
proof -
  obtain p where p: "reachable (big_script False, big_start) p"
     "queued_count (snd p) = 0" "completed_count (snd p) = 1"
    using big_run_counters_wrap by blast
  have "\<not> completed_count (snd p) \<le> queued_count (snd p)"
    by (simp add: p)
  with p(1) have "\<not> (\<forall>p. reachable (big_script False, big_start) p \<longrightarrow>
          completed_count (snd p) \<le> queued_count (snd p))"
    by blast
  then show ?thesis using main_start_big_invocation[of False] by simp
qed

section \<open>The statistics\<close>














lemma example_pushed_facts:
  "pipeline_work_queue (snd example_pushed) = [example_item]"
  "thread_pool (snd example_pushed) = [Waiting]"
  "\<not> shutting_down (snd example_pushed)"
  "loop_count (snd example_pushed) = 1"
  "trace (snd example_pushed) = []"
  "shader_modules (snd example_pushed) = [0xA \<mapsto> VK_NULL_HANDLE]"
  by (simp_all add: example_pushed_def enqueue_create_shader_module_def Let_def
      example_start_facts example_item_def work_item_for_def subscript_def
      example_start_def ThreadedReplayer_new_def)

lemma reachable_example_created: "reachable (example_script, example_start) example_created"
proof -
  have "worker_step 0 example_success (snd example_pushed) = Some (snd example_popped)"
    by (simp add: worker_step_def example_pushed_facts example_popped_def)
  then have "step (fst example_pushed, snd example_pushed) (fst example_pushed, snd example_popped)"
    by (rule step.worker_thread)
  then have r1: "reachable (example_script, example_start) example_popped"
    using reachable_example_pushed reachable.next_step by (simp add: example_popped_def)
  have "worker_step 0 example_success (snd example_popped) = Some (snd example_created)"
    by (simp add: worker_step_def example_pushed_facts example_popped_def example_created_def
        example_item_facts has_loop_def)
  then have "step (fst example_pushed, snd example_popped) (fst example_pushed, snd example_created)"
    by (rule step.worker_thread)
  then show ?thesis
    using r1 reachable.next_step by (simp add: example_popped_def example_created_def)
qed




section \<open>The barrier between shader modules and pipelines\<close>

subsection \<open>The order of the main thread's actions\<close>

lemma play_entries_actions:
  "a \<in> set (fst (play_entries t es)) \<Longrightarrow> parse_tag a = Some t \<or> a = Return EXIT_FAILURE"
proof (induction t es rule: play_entries.induct)
  case (1 t)
  then show ?case by simp
next
  case (2 t h es)
  then show ?case by simp
next
  case (3 t h p es)
  then show ?case by (auto split: prod.splits)
qed

lemma play_entries_completed_actions:
  "snd (play_entries t es) \<Longrightarrow> a \<in> set (fst (play_entries t es)) \<Longrightarrow> parse_tag a = Some t"
proof (induction t es rule: play_entries.induct)
  case (1 t)
  then show ?case by simp
next
  case (2 t h es)
  then show ?case by simp
next
  case (3 t h p es)
  then show ?case by (auto split: prod.splits)
qed

lemma barrier_before_pipelines_append:
  assumes "\<forall>a \<in> set xs. a \<noteq> Sync \<and> \<not> parses_pipeline a"
  shows "barrier_before_pipelines (xs @ ys) = barrier_before_pipelines ys"
  using assms
proof (induction xs)
  case Nil
  then show ?case by simp
next
  case (Cons a xs)
  then show ?case by (cases a) simp_all
qed

lemma play_entries_before_barrier:
  assumes "\<not> is_pipeline_tag t"
  shows "\<forall>a \<in> set (fst (play_entries t es)). a \<noteq> Sync \<and> \<not> parses_pipeline a"
proof
  fix a assume "a \<in> set (fst (play_entries t es))"
  from play_entries_actions[OF this] assms show "a \<noteq> Sync \<and> \<not> parses_pipeline a"
    by (auto simp: parses_pipeline_def)
qed

lemma play_entries_no_shader:
  assumes "t \<noteq> RESOURCE_SHADER_MODULE"
  shows "list_all (\<lambda>a. \<not> parses_shader a) (fst (play_entries t es))"
  unfolding list_all_iff
proof
  fix a assume "a \<in> set (fst (play_entries t es))"
  from play_entries_actions[OF this] assms show "\<not> parses_shader a"
    by (auto simp: parses_shader_def)
qed

lemma play_tags_no_shader:
  assumes "\<forall>t \<in> set ts. t \<noteq> RESOURCE_SHADER_MODULE"
  shows "list_all (\<lambda>a. \<not> parses_shader a) (play_tags a ts)"
  using assms
proof (induction ts)
  case Nil
  then show ?case by (simp add: parses_shader_def)
next
  case (Cons t ts)
  then have t: "t \<noteq> RESOURCE_SHADER_MODULE" and ih: "list_all (\<lambda>a. \<not> parses_shader a) (play_tags a ts)"
    by simp_all
  show ?case
  proof (cases "a t")
    case HashListFailed
    then show ?thesis by (simp add: parses_shader_def)
  next
    case (HashList es)
    obtain acts ok where pe: "play_entries t es = (acts, ok)" by (cases "play_entries t es")
    have "list_all (\<lambda>a. \<not> parses_shader a) acts"
      using play_entries_no_shader[OF t, of es] pe by simp
    with ih HashList pe show ?thesis
      by (cases ok) (simp_all add: parses_shader_def)
  qed
qed

lemma play_tags_barrier_before_pipelines:
  assumes "\<forall>t \<in> set ts. \<not> is_pipeline_tag t \<and> t \<noteq> RESOURCE_RENDER_PASS"
    and "\<forall>t \<in> set ts'. t \<noteq> RESOURCE_SHADER_MODULE"
  shows "barrier_before_pipelines (play_tags a (ts @ RESOURCE_RENDER_PASS # ts'))"
  using assms(1)
proof (induction ts)
  case Nil
  show ?case
  proof (cases "a RESOURCE_RENDER_PASS")
    case HashListFailed
    then show ?thesis by (simp add: parses_pipeline_def)
  next
    case (HashList es)
    obtain acts ok where pe: "play_entries RESOURCE_RENDER_PASS es = (acts, ok)"
      by (cases "play_entries RESOURCE_RENDER_PASS es")
    have acts: "\<forall>a \<in> set acts. a \<noteq> Sync \<and> \<not> parses_pipeline a"
      using play_entries_before_barrier[of RESOURCE_RENDER_PASS es] pe
      by (simp add: is_pipeline_tag_def)
    show ?thesis
    proof (cases ok)
      case True
      have "barrier_before_pipelines (acts @ Sync # play_tags a ts')"
        unfolding barrier_before_pipelines_append[OF acts]
        using play_tags_no_shader[OF assms(2)] by simp
      with HashList pe True show ?thesis by simp
    next
      case False
      have "barrier_before_pipelines (acts @ [])"
        unfolding barrier_before_pipelines_append[OF acts] by simp
      with HashList pe False show ?thesis by simp
    qed
  qed
next
  case (Cons t ts)
  then have t: "\<not> is_pipeline_tag t" "t \<noteq> RESOURCE_RENDER_PASS"
    and ih: "barrier_before_pipelines (play_tags a (ts @ RESOURCE_RENDER_PASS # ts'))"
    by simp_all
  show ?case
  proof (cases "a t")
    case HashListFailed
    then show ?thesis by (simp add: parses_pipeline_def)
  next
    case (HashList es)
    obtain acts ok where pe: "play_entries t es = (acts, ok)" by (cases "play_entries t es")
    have acts: "\<forall>a \<in> set acts. a \<noteq> Sync \<and> \<not> parses_pipeline a"
      using play_entries_before_barrier[OF t(1), of es] pe by simp
    show ?thesis
    proof (cases ok)
      case True
      have "barrier_before_pipelines (acts @ play_tags a (ts @ RESOURCE_RENDER_PASS # ts'))"
        unfolding barrier_before_pipelines_append[OF acts] by (rule ih)
      with HashList pe True t(2) show ?thesis by simp
    next
      case False
      have "barrier_before_pipelines (acts @ [])"
        unfolding barrier_before_pipelines_append[OF acts] by simp
      with HashList pe False show ?thesis by simp
    qed
  qed
qed

lemma playback_order_barrier_before_pipelines:
  "barrier_before_pipelines (play_tags a playback_order)"
proof -
  have "playback_order =
      [RESOURCE_APPLICATION_INFO, RESOURCE_SHADER_MODULE, RESOURCE_SAMPLER,
       RESOURCE_DESCRIPTOR_SET_LAYOUT, RESOURCE_PIPELINE_LAYOUT] @
      RESOURCE_RENDER_PASS # [RESOURCE_GRAPHICS_PIPELINE, RESOURCE_COMPUTE_PIPELINE]"
    by (simp add: playback_order_def)
  then show ?thesis
    using play_tags_barrier_before_pipelines[of
        "[RESOURCE_APPLICATION_INFO, RESOURCE_SHADER_MODULE, RESOURCE_SAMPLER,
          RESOURCE_DESCRIPTOR_SET_LAYOUT, RESOURCE_PIPELINE_LAYOUT]"
        "[RESOURCE_GRAPHICS_PIPELINE, RESOURCE_COMPUTE_PIPELINE]" a]
    by (simp add: is_pipeline_tag_def)
qed

lemma play_tags_completing:
  assumes "category_completes a t"
  shows "play_tags a (t # ts) =
     category_actions a t @ (if t = RESOURCE_RENDER_PASS then [Sync] else []) @ play_tags a ts"
  using assms
  by (auto simp: category_completes_def category_actions_def split: hash_list.splits prod.splits)

lemma category_actions_parse:
  assumes "category_completes a t" and "x \<in> set (category_actions a t)"
  shows "parse_tag x = Some t"
  using assms play_entries_completed_actions[of t _ x]
  by (auto simp: category_completes_def category_actions_def split: hash_list.splits)

lemma main_start_script:
  assumes "main_start invoc = Inr p0"
  shows "fst p0 = (if \<not> prepare_ok invoc then [Return EXIT_FAILURE]
                   else play_tags (the_archive invoc) playback_order)"
  using assms unfolding main_start_def Let_def by (auto split: if_splits)

subsection \<open>Unfinished items\<close>

lemma length_held_items: "length (held_items s) = length (filter is_working (thread_pool s))"
proof -
  have "length (concat (map worker_item ws)) = length (filter is_working ws)" for ws
  proof (induction ws)
    case Nil
    then show ?case by simp
  next
    case (Cons w ws)
    then show ?case by (cases w) simp_all
  qed
  then show ?thesis by (simp add: held_items_def)
qed

lemma length_unfinished_items: "length (unfinished_items s) = outstanding s"
  by (simp add: unfinished_items_def outstanding_def length_held_items)

lemma set_held_items: "set (held_items s) = (\<Union>w \<in> set (thread_pool s). set (worker_item w))"
  by (simp add: held_items_def)

lemma held_items_update:
  assumes "thread_pool s' = (thread_pool s)[w := y]"
  shows "set (held_items s') \<subseteq> set (worker_item y) \<union> set (held_items s)"
proof -
  have "set ((thread_pool s)[w := y]) \<subseteq> insert y (set (thread_pool s))"
    by (rule set_update_subset_insert)
  then show ?thesis
    unfolding set_held_items assms by auto
qed

lemma held_item_of_worker:
  assumes "w < length (thread_pool s)" and "thread_pool s ! w = Working work_item i"
  shows "work_item \<in> set (held_items s)"
proof -
  have "thread_pool s ! w \<in> set (thread_pool s)" using assms(1) by (rule nth_mem)
  then show ?thesis unfolding set_held_items using assms(2) by force
qed

lemma unfinished_items_same:
  assumes "pipeline_work_queue s' = pipeline_work_queue s" and "thread_pool s' = thread_pool s"
  shows "unfinished_items s' = unfinished_items s"
  using assms by (simp add: unfinished_items_def held_items_def)

lemma unfinished_worker_step:
  assumes "worker_step w r s = Some s'"
  shows "set (unfinished_items s') \<subseteq> set (unfinished_items s)"
  using assms
proof (cases rule: worker_step_cases)
  case leave
  have "pipeline_work_queue s' = pipeline_work_queue s"
    "thread_pool s' = (thread_pool s)[w := Finished]"
    by (simp_all add: leave worker_exit_def)
  with held_items_update[of s' s w Finished] show ?thesis
    by (auto simp: unfinished_items_def)
next
  case (pop work_item rest)
  have "pipeline_work_queue s' = rest"
    "thread_pool s' = (thread_pool s)[w := Working work_item 0]"
    by (simp_all add: pop)
  with held_items_update[of s' s w "Working work_item 0"] pop(4) show ?thesis
    by (auto simp: unfinished_items_def)
next
  case (pass work_item i)
  have "pipeline_work_queue s' = pipeline_work_queue s"
    "thread_pool s' = (thread_pool s)[w := Working work_item (i + 1)]"
    by (simp_all add: pass loop_body_frame)
  with held_items_update[of s' s w "Working work_item (i + 1)"]
    held_item_of_worker[OF pass(1,2)] show ?thesis
    by (auto simp: unfinished_items_def)
next
  case (complete work_item i)
  have "pipeline_work_queue s' = pipeline_work_queue s"
    "thread_pool s' = (thread_pool s)[w := Waiting]"
    by (simp_all add: complete mark_completed_def)
  with held_items_update[of s' s w Waiting] show ?thesis
    by (auto simp: unfinished_items_def)
qed

lemma unfinished_push:
  assumes "pipeline_work_queue s' = pipeline_work_queue s @ [work_item]"
    and "thread_pool s' = thread_pool s"
  shows "set (unfinished_items s') = insert work_item (set (unfinished_items s))"
  using assms by (auto simp: unfinished_items_def held_items_def)

subsection \<open>The invariant\<close>

lemma driver_step_takeWhile:
  assumes "driver_step env r (a # d1, s) = Some (d', s')" and "a \<noteq> Sync"
  shows "driver_step env r (a # takeWhile P d1, s) = Some (takeWhile P d', s')"
proof (cases a)
  case (Parse t h p)
  with assms show ?thesis
    by (cases p) (auto split: sum.splits failure.splits)
next
  case Sync
  with assms show ?thesis by simp
next
  case Report
  with assms show ?thesis by auto
next
  case (Return e)
  with assms show ?thesis by auto
qed

lemma barrier_before_pipelines_tail:
  assumes "barrier_before_pipelines (a # d)" and "a \<noteq> Sync"
  shows "\<not> parses_pipeline a" and "barrier_before_pipelines d"
  using assms by (cases a; simp)+

lemma barrier_inv_worker_step:
  assumes N: "N < 2 ^ 32" and inv: "barrier_inv N (d, s)" and st: "worker_step w r s = Some s'"
  shows "barrier_inv N (d, s')"
proof -
  note sub = unfinished_worker_step[OF st]
  from inv show ?thesis unfolding barrier_inv_def
  proof (elim disjE conjE)
    assume a: "barrier_before_pipelines (fst (d, s))"
      "list_all (\<lambda>i. tag i = RESOURCE_SHADER_MODULE) (unfinished_items (snd (d, s)))"
      "counters_inv N (takeWhile (\<lambda>a. a \<noteq> Sync) (fst (d, s)), snd (d, s))"
    have "counters_inv N (takeWhile (\<lambda>a. a \<noteq> Sync) d, s')"
      using counters_inv_worker_step(1)[OF N _ st] a(3) by simp
    moreover have "list_all (\<lambda>i. tag i = RESOURCE_SHADER_MODULE) (unfinished_items s')"
      using a(2) sub by (auto simp: list_all_iff)
    ultimately show "(barrier_before_pipelines (fst (d, s')) \<and>
      list_all (\<lambda>i. tag i = RESOURCE_SHADER_MODULE) (unfinished_items (snd (d, s'))) \<and>
      counters_inv N (takeWhile (\<lambda>a. a \<noteq> Sync) (fst (d, s')), snd (d, s'))) \<or>
     (list_all (\<lambda>a. \<not> parses_shader a) (fst (d, s')) \<and>
      list_all (\<lambda>i. tag i \<noteq> RESOURCE_SHADER_MODULE) (unfinished_items (snd (d, s'))))"
      using a(1) by simp
  next
    assume b: "list_all (\<lambda>a. \<not> parses_shader a) (fst (d, s))"
      "list_all (\<lambda>i. tag i \<noteq> RESOURCE_SHADER_MODULE) (unfinished_items (snd (d, s)))"
    have "list_all (\<lambda>i. tag i \<noteq> RESOURCE_SHADER_MODULE) (unfinished_items s')"
      using b(2) sub by (auto simp: list_all_iff)
    then show "(barrier_before_pipelines (fst (d, s')) \<and>
      list_all (\<lambda>i. tag i = RESOURCE_SHADER_MODULE) (unfinished_items (snd (d, s'))) \<and>
      counters_inv N (takeWhile (\<lambda>a. a \<noteq> Sync) (fst (d, s')), snd (d, s'))) \<or>
     (list_all (\<lambda>a. \<not> parses_shader a) (fst (d, s')) \<and>
      list_all (\<lambda>i. tag i \<noteq> RESOURCE_SHADER_MODULE) (unfinished_items (snd (d, s'))))"
      using b(1) by simp
  qed
qed

lemma barrier_inv_driver_step:
  assumes N: "N < 2 ^ 32" and inv: "barrier_inv N (d, s)"
    and st: "driver_step env r (d, s) = Some (d', s')"
  shows "barrier_inv N (d', s')"
proof -
  from inv consider
    (before) "barrier_before_pipelines d"
      "list_all (\<lambda>i. tag i = RESOURCE_SHADER_MODULE) (unfinished_items s)"
      "counters_inv N (takeWhile (\<lambda>a. a \<noteq> Sync) d, s)"
  | (after) "list_all (\<lambda>a. \<not> parses_shader a) d"
      "list_all (\<lambda>i. tag i \<noteq> RESOURCE_SHADER_MODULE) (unfinished_items s)"
    by (auto simp: barrier_inv_def)
  then show ?thesis
  proof cases
    case before
    have counters: "counters_inv N (takeWhile (\<lambda>a. a \<noteq> Sync) d', s')"
      if "d = a # d1" "a \<noteq> Sync" for a d1
    proof -
      have "driver_step env r (a # takeWhile (\<lambda>a. a \<noteq> Sync) d1, s)
          = Some (takeWhile (\<lambda>a. a \<noteq> Sync) d', s')"
        using driver_step_takeWhile[of env r a d1 s d' s'] st that by simp
      from counters_inv_driver_step(1)[OF N _ this] before(3) that show ?thesis by simp
    qed
    from st show ?thesis
    proof (cases rule: driver_step_cases)
      case (push t h info out)
      have tail: "\<not> parses_pipeline (Parse t h (ParseCalls info out))" "barrier_before_pipelines d'"
        using barrier_before_pipelines_tail[of "Parse t h (ParseCalls info out)" d'] before(1) push(1)
        by simp_all
      with push(2) have t: "t = RESOURCE_SHADER_MODULE"
        by (auto simp: parses_pipeline_def is_pipeline_tag_def has_loop_def)
      have "list_all (\<lambda>i. tag i = RESOURCE_SHADER_MODULE) (unfinished_items s')"
        using before(2) unfinished_push[OF push(3,6)] t
        by (auto simp: list_all_iff work_item_for_def)
      with tail(2) counters[OF push(1)] show ?thesis by (simp add: barrier_inv_def)
    next
      case (skip a)
      have "barrier_before_pipelines d'"
        using barrier_before_pipelines_tail(2)[of a d'] before(1) skip(1,2) by simp
      moreover have "unfinished_items s' = unfinished_items s"
        using skip by (intro unfinished_items_same) simp_all
      ultimately show ?thesis
        using before(2) counters[OF skip(1,2)] by (simp add: barrier_inv_def)
    next
      case sync
      have "outstanding s = 0"
        using before(3) sync by (simp add: counters_inv_def)
      then have "unfinished_items s = []"
        using length_unfinished_items[of s] by simp
      moreover have "list_all (\<lambda>a. \<not> parses_shader a) d'"
        using before(1) sync(1) by simp
      ultimately show ?thesis using sync(3) by (simp add: barrier_inv_def)
    next
      case (leave e rest)
      have "unfinished_items s' = unfinished_items s"
        using leave by (intro unfinished_items_same) simp_all
      then show ?thesis
        using before(2) counters[OF leave(1)] leave(2) by (simp add: barrier_inv_def)
    qed
  next
    case after
    from st show ?thesis
    proof (cases rule: driver_step_cases)
      case (push t h info out)
      have "t \<noteq> RESOURCE_SHADER_MODULE" "list_all (\<lambda>a. \<not> parses_shader a) d'"
        using after(1) push(1) by (simp_all add: parses_shader_def)
      moreover have "list_all (\<lambda>i. tag i \<noteq> RESOURCE_SHADER_MODULE) (unfinished_items s')"
        using after(2) unfinished_push[OF push(3,6)] calculation(1)
        by (auto simp: list_all_iff work_item_for_def)
      ultimately show ?thesis by (simp add: barrier_inv_def)
    next
      case (skip a)
      have "unfinished_items s' = unfinished_items s"
        using skip by (intro unfinished_items_same) simp_all
      then show ?thesis using after skip(1) by (simp add: barrier_inv_def)
    next
      case sync
      then show ?thesis using after by (simp add: barrier_inv_def)
    next
      case (leave e rest)
      have "unfinished_items s' = unfinished_items s"
        using leave by (intro unfinished_items_same) simp_all
      then show ?thesis using after leave(2) by (simp add: barrier_inv_def)
    qed
  qed
qed

lemma barrier_inv_reachable:
  assumes "N < 2 ^ 32" and "barrier_inv N p0" and "reachable p0 p"
  shows "barrier_inv N p"
  using assms(3)
proof (induction rule: reachable.induct)
  case start
  then show ?case by (rule assms(2))
next
  case (next_step p p')
  from next_step(2) show ?case
  proof (cases rule: step.cases)
    case (main_thread env r)
    obtain d s d' s' where [simp]: "p = (d, s)" "p' = (d', s')"
      by (cases p, cases p') auto
    from main_thread barrier_inv_driver_step[OF assms(1), of d s env r d' s'] next_step(3)
    show ?thesis by simp
  next
    case (worker_thread w r s s' d)
    with barrier_inv_worker_step[OF assms(1), of d s w r s'] next_step(3)
    show ?thesis by simp
  qed
qed

lemma barrier_inv_main_start:
  assumes "main_start invoc = Inr p0"
  shows "barrier_inv (pushes_before_barrier p0) p0"
proof -
  obtain o1 g c where s0: "snd p0 = ThreadedReplayer_new o1 g c"
    using main_start_replayer[OF assms] by blast
  have "barrier_before_pipelines (fst p0)"
    using main_start_script[OF assms] playback_order_barrier_before_pipelines
    by (simp add: parses_pipeline_def)
  moreover have "unfinished_items (snd p0) = []"
    using length_unfinished_items[of "snd p0"]
    by (simp add: s0 outstanding_def ThreadedReplayer_new_def)
  moreover have "counters_inv (pushes_before_barrier p0)
      (takeWhile (\<lambda>a. a \<noteq> Sync) (fst p0), snd p0)"
    unfolding pushes_before_barrier_def s0 by (rule counters_inv_new)
  ultimately show ?thesis by (simp add: barrier_inv_def)
qed

lemma barrier_inv_ordering:
  assumes "barrier_inv N p"
  shows "pipelines_wait_for_shaders p"
proof -
  have "set (held_items (snd p)) \<subseteq> set (unfinished_items (snd p))"
    by (simp add: unfinished_items_def)
  then show ?thesis
    using assms
    by (auto simp: barrier_inv_def pipelines_wait_for_shaders_def list_all_iff list_ex_iff
        is_pipeline_tag_def)
qed

subsection \<open>The barrier in every run\<close>

lemma play_tags_before_barrier:
  assumes "list_all (category_completes a) categories_before_barrier"
  shows "play_tags a playback_order =
     concat (map (category_actions a) categories_before_barrier) @
       Sync # play_tags a pipeline_categories"
  using assms
  by (simp add: playback_order_def categories_before_barrier_def pipeline_categories_def
      play_tags_completing del: play_tags.simps)

lemma play_tags_pipeline_categories:
  assumes "list_all (category_completes a) pipeline_categories"
  shows "play_tags a pipeline_categories =
     concat (map (category_actions a) pipeline_categories) @ [Sync, Report, Return EXIT_SUCCESS]"
proof -
  have "play_tags a [] = [Sync, Report, Return EXIT_SUCCESS]" by simp
  with assms show ?thesis
    by (simp add: pipeline_categories_def play_tags_completing del: play_tags.simps)
qed

lemma category_actions_before_barrier:
  assumes "list_all (category_completes a) categories_before_barrier"
  shows "list_all (\<lambda>x. x \<noteq> Sync \<and> \<not> parses_pipeline x)
     (concat (map (category_actions a) categories_before_barrier))"
  unfolding list_all_iff
proof
  fix x assume "x \<in> set (concat (map (category_actions a) categories_before_barrier))"
  then obtain t where t: "t \<in> set categories_before_barrier" "x \<in> set (category_actions a t)"
    by auto
  from t(1) assms have "category_completes a t" by (simp add: list_all_iff)
  from category_actions_parse[OF this t(2)] have "parse_tag x = Some t" .
  moreover have "\<not> is_pipeline_tag t"
    using t(1) by (auto simp: categories_before_barrier_def is_pipeline_tag_def)
  ultimately show "x \<noteq> Sync \<and> \<not> parses_pipeline x"
    by (auto simp: parses_pipeline_def)
qed

text \<open>
  Claim C1, amended. In every run, the script of the main thread has a call of
  \<open>sync_worker_threads\<close> before any graphics-pipeline or compute-pipeline record is
  parsed (and so enqueued), and no shader-module record after it. When the categories up
  to the render passes complete, that call comes immediately after the actions of the
  render-pass category, and when the two pipeline categories complete, a final call
  follows the last of them. Consequently, provided fewer than \<open>2 ^ 32\<close> work items are
  pushed before the first barrier, in no state of the run does a worker hold a pipeline
  work item while a shader-module work item is still queued or held by a worker.
\<close>

theorem barrier_before_pipeline_work:
  assumes "main_start invoc = Inr p0"
    and "pushes_before_barrier p0 < 2 ^ 32"
    and "reachable p0 p"
  shows "barrier_before_pipelines (fst p0) \<and>
     (prepare_ok invoc \<and>
      list_all (category_completes (the_archive invoc)) categories_before_barrier \<longrightarrow>
        fst p0 =
          concat (map (category_actions (the_archive invoc)) categories_before_barrier) @
            Sync # play_tags (the_archive invoc) pipeline_categories \<and>
        list_all (\<lambda>x. x \<noteq> Sync \<and> \<not> parses_pipeline x)
          (concat (map (category_actions (the_archive invoc)) categories_before_barrier))) \<and>
     (list_all (category_completes (the_archive invoc)) pipeline_categories \<longrightarrow>
        play_tags (the_archive invoc) pipeline_categories =
          concat (map (category_actions (the_archive invoc)) pipeline_categories) @
            [Sync, Report, Return EXIT_SUCCESS]) \<and>
     pipelines_wait_for_shaders p"
proof -
  have "barrier_inv (pushes_before_barrier p0) p"
    using barrier_inv_reachable[OF assms(2) barrier_inv_main_start[OF assms(1)] assms(3)] .
  then have order: "pipelines_wait_for_shaders p" by (rule barrier_inv_ordering)
  have script: "barrier_before_pipelines (fst p0)"
    using main_start_script[OF assms(1)] playback_order_barrier_before_pipelines
    by (simp add: parses_pipeline_def)
  have first: "fst p0 =
      concat (map (category_actions (the_archive invoc)) categories_before_barrier) @
        Sync # play_tags (the_archive invoc) pipeline_categories"
    if "prepare_ok invoc"
      and "list_all (category_completes (the_archive invoc)) categories_before_barrier"
    using main_start_script[OF assms(1)] that(1) play_tags_before_barrier[OF that(2)] by simp
  show ?thesis
    using order script first category_actions_before_barrier play_tags_pipeline_categories
    by blast
qed

subsection \<open>The small run, up to the pipeline\<close>

lemma example_created_facts:
  "pipeline_work_queue (snd example_created) = []"
  "thread_pool (snd example_created) = [Working example_item 1]"
  "queued_count (snd example_created) = 1"
  "completed_count (snd example_created) = 0"
  "loop_count (snd example_created) = 1"
  "\<not> shutting_down (snd example_created)"
  "filter_graphics (snd example_created) = {}"
  "filter_compute (snd example_created) = {}"
  by (simp_all add: example_created_def example_popped_def example_pushed_def loop_body_def
      example_item_facts shader_module_iteration_def Let_def enqueue_create_shader_module_def
      example_start_def ThreadedReplayer_new_def)

lemma example_completed_facts:
  "fst example_completed =
     [Sync, Parse RESOURCE_GRAPHICS_PIPELINE 0xC (ParseCalls 2 2), Sync, Report,
      Return EXIT_SUCCESS]"
  "pipeline_work_queue (snd example_completed) = []"
  "thread_pool (snd example_completed) = [Waiting]"
  "queued_count (snd example_completed) = 1"
  "completed_count (snd example_completed) = 1"
  "\<not> shutting_down (snd example_completed)"
  "graphics_filter_passes (snd example_completed) 0xC"
  by (simp_all add: example_completed_def mark_completed_def example_created_facts
      graphics_filter_passes_def example_pushed_def)

lemma example_gp_pushed_facts:
  "pipeline_work_queue (snd example_gp_pushed) = [example_gp_item]"
  "thread_pool (snd example_gp_pushed) = [Waiting]"
  "\<not> shutting_down (snd example_gp_pushed)"
  by (simp_all add: example_gp_pushed_def enqueue_create_graphics_pipeline_result
      example_completed_facts example_gp_item_def)

lemma reachable_example_gp_popped:
  "reachable (example_script, example_start) example_gp_popped"
proof -
  let ?p0 = "(example_script, example_start)"
  have "worker_step 0 example_success (snd example_created) = Some (snd example_completed)"
    by (simp add: worker_step_def example_created_facts example_completed_def)
  then have "step (fst example_pushed, snd example_created)
      (fst example_pushed, snd example_completed)"
    by (rule step.worker_thread)
  then have "step example_created example_completed"
    by (simp add: example_created_def example_completed_def)
  with reachable_example_created have r1: "reachable ?p0 example_completed"
    by (rule reachable.next_step)
  let ?p2 = "(tl (fst example_completed), snd example_completed)"
  have "driver_step example_env example_success (fst example_completed, snd example_completed)
      = Some ?p2"
    by (simp add: example_completed_facts)
  then have "step example_completed ?p2"
    using step.main_thread by fastforce
  with r1 have r2: "reachable ?p0 ?p2" by (rule reachable.next_step)
  have "driver_step example_env example_success ?p2 = Some example_gp_pushed"
    by (simp add: example_completed_facts replay_record_def example_gp_pushed_def
        split: prod.splits)
  then have "step ?p2 example_gp_pushed" by (rule step.main_thread)
  with r2 have r3: "reachable ?p0 example_gp_pushed" by (rule reachable.next_step)
  have "worker_step 0 example_success (snd example_gp_pushed) = Some (snd example_gp_popped)"
    by (simp add: worker_step_def example_gp_pushed_facts example_gp_popped_def)
  then have "step (fst example_gp_pushed, snd example_gp_pushed)
      (fst example_gp_pushed, snd example_gp_popped)"
    by (rule step.worker_thread)
  then have "step example_gp_pushed example_gp_popped"
    by (simp add: example_gp_popped_def)
  with r3 show ?thesis by (rule reachable.next_step)
qed

theorem barrier_before_pipeline_work_witness:
  "main_start example_invocation = Inr (example_script, example_start) \<and>
   pushes_before_barrier (example_script, example_start) < 2 ^ 32 \<and>
   reachable (example_script, example_start) example_gp_popped \<and>
   prepare_ok example_invocation \<and>
   list_all (category_completes (the_archive example_invocation)) categories_before_barrier \<and>
   list_all (category_completes (the_archive example_invocation)) pipeline_categories \<and>
   barrier_before_pipelines example_script \<and>
   example_script =
     concat (map (category_actions example_archive) categories_before_barrier) @
       Sync # play_tags example_archive pipeline_categories \<and>
   play_tags example_archive pipeline_categories =
     concat (map (category_actions example_archive) pipeline_categories) @
       [Sync, Report, Return EXIT_SUCCESS] \<and>
   held_items (snd example_gp_popped) = [example_gp_item] \<and>
   list_ex (\<lambda>i. is_pipeline_tag (tag i)) (held_items (snd example_gp_popped)) \<and>
   list_all (\<lambda>i. tag i \<noteq> RESOURCE_SHADER_MODULE) (unfinished_items (snd example_gp_popped))"
proof -
  have n: "pushes_before_barrier (example_script, example_start) < 2 ^ 32"
    by (simp add: pushes_before_barrier_def pending_pushes_def example_script_def)
  have a: "the_archive example_invocation = example_archive" "prepare_ok example_invocation"
    by (simp_all add: example_invocation_def)
  have c1: "list_all (category_completes (the_archive example_invocation))
      categories_before_barrier"
    by (simp add: a categories_before_barrier_def category_completes_def example_archive_def)
  have c2: "list_all (category_completes (the_archive example_invocation)) pipeline_categories"
    by (simp add: a pipeline_categories_def category_completes_def example_archive_def)
  have h: "held_items (snd example_gp_popped) = [example_gp_item]"
    by (simp add: held_items_def example_gp_popped_def)
  have e: "list_ex (\<lambda>i. is_pipeline_tag (tag i)) (held_items (snd example_gp_popped))"
    by (simp add: h example_gp_item_def work_item_for_def is_pipeline_tag_def)
  note inst = barrier_before_pipeline_work[OF main_start_example_invocation n
      reachable_example_gp_popped, unfolded fst_conv a(1)]
  from inst e have w: "list_all (\<lambda>i. tag i \<noteq> RESOURCE_SHADER_MODULE)
      (unfinished_items (snd example_gp_popped))"
    by (simp add: pipelines_wait_for_shaders_def)
  from inst have s1: "barrier_before_pipelines example_script" by blast
  from inst a(2) c1[unfolded a(1)] have s2: "example_script =
     concat (map (category_actions example_archive) categories_before_barrier) @
       Sync # play_tags example_archive pipeline_categories"
    by blast
  from inst c2[unfolded a(1)] have s3: "play_tags example_archive pipeline_categories =
     concat (map (category_actions example_archive) pipeline_categories) @
       [Sync, Report, Return EXIT_SUCCESS]"
    by blast
  note s = s1 s2 s3
  show ?thesis
    using main_start_example_invocation n reachable_example_gp_popped a(2) c1 c2 s h e w
    by blast
qed

text \<open>
  The claim as stated has no bound on the number of work items. With \<open>2 ^ 32\<close> shader
  modules pushed before any of them is completed, \<open>queued_count\<close> is 0 again and equal to
  \<open>completed_count\<close>, so \<open>sync_worker_threads\<close> returns with all of them outstanding; the
  pipeline is then pushed, and is taken up by one worker while the other still holds the
  last shader module.
\<close>

lemma big_run_pipeline_early:
  "\<exists>p. reachable (big_script True, big_start) p \<and> pipeline_work_queue (snd p) = [] \<and>
     thread_pool (snd p) = [Working (sm_item (big_count - 1)) 0, Working gp_item 0]"
proof -
  let ?p0 = "(big_script True, big_start)"
  let ?rest = "[Sync, Report, Return EXIT_SUCCESS]"
  obtain p1 where p1: "reachable ?p0 p1"
     "big_state (map sm_parse [big_count..<big_count] @ big_tail True)
        (map sm_item [0..<big_count]) (of_nat big_count) 0 [Waiting, Waiting] 0 0 p1"
    using big_push_all[of big_count True] by auto
  from p1(2) have "big_state (Sync # gp_parse # ?rest) (map sm_item [0..<big_count]) 0 0
      [Waiting, Waiting] 0 0 p1"
    by (simp add: of_nat_big_count big_tail_def)
  from big_sync[OF p1(1) this]
  obtain p2 where p2: "reachable ?p0 p2"
     "big_state (gp_parse # ?rest) (map sm_item [0..<big_count]) 0 0 [Waiting, Waiting] 0 0 p2"
    by auto
  from big_push_graphics_pipeline[OF p2]
  obtain p3 where p3: "reachable ?p0 p3"
     "big_state ?rest (map sm_item [0..<big_count] @ [gp_item]) 1 0 [Waiting, Waiting] 0 0 p3"
    by auto
  define m where "m = big_count - 1"
  have m: "m \<le> big_count" and last: "[m..<big_count] = [m]"
    by (simp_all add: m_def big_count_def upt_conv_Cons)
  from big_drain[OF p3 m]
  obtain p4 where p4: "reachable ?p0 p4"
     "big_state ?rest (map sm_item [m..<big_count] @ [gp_item]) 1 (of_nat m)
        [Waiting, Waiting] (of_nat m) m p4"
    by auto
  from p4(2) have "big_state ?rest (sm_item m # [gp_item]) 1 (of_nat m)
        [Waiting, Waiting] (of_nat m) m p4"
    by (simp add: last)
  from big_pop[OF p4(1) this, of 0]
  obtain p5 where p5: "reachable ?p0 p5"
     "big_state ?rest (gp_item # []) 1 (of_nat m)
        [Working (sm_item m) 0, Waiting] (of_nat m) m p5"
    by auto
  from big_pop[OF p5, of 1] show ?thesis
    by (auto simp: big_state_def m_def)
qed

theorem pipeline_before_shader_modules_complete:
  "main_start (big_invocation True) = Inr (big_script True, big_start) \<and>
   \<not> (\<forall>p. reachable (big_script True, big_start) p \<longrightarrow> pipelines_wait_for_shaders p)"
proof -
  obtain p where p: "reachable (big_script True, big_start) p"
     "pipeline_work_queue (snd p) = []"
     "thread_pool (snd p) = [Working (sm_item (big_count - 1)) 0, Working gp_item 0]"
    using big_run_pipeline_early by blast
  have "\<not> pipelines_wait_for_shaders p"
    by (simp add: pipelines_wait_for_shaders_def held_items_def unfinished_items_def p
        sm_item_def gp_item_def work_item_for_def is_pipeline_tag_def)
  with p(1) have "\<not> (\<forall>p. reachable (big_script True, big_start) p \<longrightarrow>
      pipelines_wait_for_shaders p)"
    by blast
  then show ?thesis using main_start_big_invocation[of True] by simp
qed

section \<open>Runs with their history\<close>

lemma replay_run_reachable:
  assumes "replay_run p0 pushed taken p"
  shows "reachable p0 p"
  using assms
proof (induction rule: replay_run.induct)
  case run_start
  show ?case by (rule reachable.start)
next
  case (run_main pushed taken p env r p')
  from run_main(2) have "step p p'" by (rule step.main_thread)
  with run_main(3) show ?case by (rule reachable.next_step)
next
  case (run_worker pushed taken d s w r s')
  from run_worker(2) have "step (d, s) (d, s')" by (rule step.worker_thread)
  with run_worker(3) show ?case by (rule reachable.next_step)
qed

lemma reachable_replay_run:
  assumes "reachable p0 p"
  shows "\<exists>pushed taken. replay_run p0 pushed taken p"
  using assms
proof (induction rule: reachable.induct)
  case start
  show ?case using run_start by blast
next
  case (next_step p p')
  then obtain pushed taken where r: "replay_run p0 pushed taken p" by blast
  from next_step(2) show ?case
  proof (cases rule: step.cases)
    case (main_thread env r')
    from run_main[OF r this] show ?thesis by blast
  next
    case (worker_thread w r' s s' d)
    with run_worker[of p0 pushed taken d s w r' s'] r show ?thesis by blast
  qed
qed

lemma taken_by_cases:
  assumes "worker_step w r s = Some s'"
  shows "taken_by w s @ pipeline_work_queue s' = pipeline_work_queue s"
  using assms
  by (cases rule: worker_step_cases)
     (simp_all add: taken_by_def worker_exit_def mark_completed_def loop_body_frame)

section \<open>The counters in a run\<close>

lemma pushed_by_same:
  assumes "pipeline_work_queue (snd p') = pipeline_work_queue (snd p)"
  shows "pushed_by p p' = []"
  using assms by (simp add: pushed_by_def)

lemma pushes_counted_driver_step:
  assumes inv: "pushes_counted n (d, s)" and st: "driver_step env r (d, s) = Some (d', s')"
    and bound: "n + length (pushed_by (d, s) (d', s')) < 2 ^ 32"
  shows "pushes_counted (n + length (pushed_by (d, s) (d', s'))) (d', s')"
    and "queued_count s \<le> queued_count s'" and "completed_count s' = completed_count s"
proof -
  from inv have q: "unat (queued_count s) = n"
    and c: "unat (completed_count s) + outstanding s = n"
    by (simp_all add: pushes_counted_def)
  have "pushes_counted (n + length (pushed_by (d, s) (d', s'))) (d', s') \<and>
      queued_count s \<le> queued_count s' \<and> completed_count s' = completed_count s"
    using st
  proof (cases rule: driver_step_cases)
    case (push t h info out)
    have pb: "pushed_by (d, s) (d', s') = [work_item_for t h info out]"
      by (simp add: pushed_by_def push(3))
    with bound have "n + 1 < 2 ^ 32" by simp
    then have u: "unat (queued_count s + 1) = unat (queued_count s) + 1"
      using unat_word_succ[of "queued_count s" "n + 1"] q by simp
    have "outstanding s' = outstanding s + 1"
      using push by (simp add: outstanding_def)
    then show ?thesis
      using q c u push(4,5) by (simp add: pushes_counted_def pb word_le_nat_alt)
  next
    case (skip a)
    have "pushed_by (d, s) (d', s') = []"
      using skip(4) by (intro pushed_by_same) simp
    moreover have "outstanding s' = outstanding s"
      using skip by (simp add: outstanding_def)
    ultimately show ?thesis
      using q c skip(5,6) by (simp add: pushes_counted_def)
  next
    case sync
    then show ?thesis using q c by (simp add: pushes_counted_def pushed_by_def)
  next
    case (leave e rest)
    have "outstanding s' = outstanding s" using leave by (simp add: outstanding_def)
    then show ?thesis
      using q c leave by (simp add: pushes_counted_def pushed_by_def)
  qed
  then show "pushes_counted (n + length (pushed_by (d, s) (d', s'))) (d', s')"
    and "queued_count s \<le> queued_count s'" and "completed_count s' = completed_count s"
    by simp_all
qed

lemma pushes_counted_worker_step:
  assumes inv: "pushes_counted n (d, s)" and bound: "n < 2 ^ 32"
    and st: "worker_step w r s = Some s'"
  shows "pushes_counted n (d, s')" and "queued_count s' = queued_count s"
    and "completed_count s \<le> completed_count s'" and "pushed_by (d, s) (d, s') = []"
proof -
  from inv have "counters_inv n ([], s)"
    by (simp add: pushes_counted_def counters_inv_def pending_pushes_def)
  note step = counters_inv_worker_step[OF bound this st]
  from step(1,2) inv show "pushes_counted n (d, s')"
    by (simp add: pushes_counted_def counters_inv_def)
  from step(2,3) show "queued_count s' = queued_count s"
    and "completed_count s \<le> completed_count s'" by simp_all
  from taken_by_cases[OF st] have "length (pipeline_work_queue s') \<le> length (pipeline_work_queue s)"
    by (metis le_add2 length_append)
  then show "pushed_by (d, s) (d, s') = []"
    by (simp add: pushed_by_def)
qed

lemma pushes_counted_run:
  assumes "pushes_counted 0 p0" and "replay_run p0 pushed taken p"
    and "length pushed < 2 ^ 32"
  shows "pushes_counted (length pushed) p"
  using assms(2,3)
proof (induction rule: replay_run.induct)
  case run_start
  show ?case using assms(1) by simp
next
  case (run_main pushed taken p env r p')
  obtain d s d' s' where [simp]: "p = (d, s)" "p' = (d', s')"
    by (cases p, cases p') auto
  from run_main(4) have "length pushed < 2 ^ 32" by simp
  from run_main(3)[OF this] have inv: "pushes_counted (length pushed) (d, s)" by simp
  from pushes_counted_driver_step(1)[OF inv, of env r d' s'] run_main(2,4)
  show ?case by simp
next
  case (run_worker pushed taken d s w r s')
  from pushes_counted_worker_step(1)[OF run_worker(3)[OF run_worker(4)] run_worker(4)
      run_worker(2)]
  show ?case .
qed

lemma pushes_counted_main_start:
  assumes "main_start invoc = Inr p0"
  shows "pushes_counted 0 p0"
proof -
  obtain o1 g c where "snd p0 = ThreadedReplayer_new o1 g c"
    using main_start_replayer[OF assms] by blast
  then show ?thesis
    by (simp add: pushes_counted_def outstanding_def ThreadedReplayer_new_def)
qed

text \<open>Once nothing is outstanding, steps that do not push leave the counters alone.\<close>

lemma no_push_step_idle:
  assumes "outstanding (snd p) = 0" and "no_push_step p p'"
  shows "outstanding (snd p') = 0 \<and> queued_count (snd p') = queued_count (snd p) \<and>
     completed_count (snd p') = completed_count (snd p)"
proof -
  from assms(2) have st: "step p p'" and same: "queued_count (snd p') = queued_count (snd p)"
    by (simp_all add: no_push_step_def)
  from st show ?thesis
  proof (cases rule: step.cases)
    case (main_thread env r)
    obtain d s d' s' where [simp]: "p = (d, s)" "p' = (d', s')"
      by (cases p, cases p') auto
    from main_thread have "driver_step env r (d, s) = Some (d', s')" by simp
    then show ?thesis
    proof (cases rule: driver_step_cases)
      case (push t h info out)
      with same show ?thesis by simp
    next
      case (skip a)
      with assms(1) show ?thesis by (simp add: outstanding_def)
    next
      case sync
      with assms(1) show ?thesis by simp
    next
      case (leave e rest)
      with assms(1) show ?thesis by (simp add: outstanding_def)
    qed
  next
    case (worker_thread w r s s' d)
    from worker_thread(3) show ?thesis
    proof (cases rule: worker_step_cases)
      case leave
      have "outstanding s' = outstanding s"
        using outstanding_pool_update[OF leave(1), of s' "pipeline_work_queue s" Finished] leave
        by (simp add: worker_exit_def outstanding_def)
      with assms(1) worker_thread leave(4) show ?thesis by (simp add: worker_exit_def)
    next
      case (pop work_item rest)
      with assms(1) worker_thread show ?thesis by (simp add: outstanding_def)
    next
      case (pass work_item i)
      with working_is_outstanding[of w s work_item i] assms(1) worker_thread show ?thesis by simp
    next
      case (complete work_item i)
      with working_is_outstanding[of w s work_item i] assms(1) worker_thread show ?thesis by simp
    qed
  qed
qed

lemma no_push_run_idle:
  assumes "no_push_step\<^sup>*\<^sup>* p1 p2" and "outstanding (snd p1) = 0" and "reachable p0 p1"
  shows "outstanding (snd p2) = 0 \<and> queued_count (snd p2) = queued_count (snd p1) \<and>
     completed_count (snd p2) = completed_count (snd p1) \<and> reachable p0 p2"
  using assms
proof (induction rule: rtranclp_induct)
  case base
  then show ?case by simp
next
  case (step p p')
  then have "step p p'" by (simp add: no_push_step_def)
  with step no_push_step_idle[of p p'] show ?case
    by (auto intro: reachable.next_step)
qed

text \<open>
  Claim C4, amended. In a run, as long as fewer than \<open>2 ^ 32\<close> work items have been
  pushed: \<open>queued_count\<close> is the number of work items pushed so far and \<open>completed_count\<close>
  is at most \<open>queued_count\<close>; no step decreases either counter, unless it is the push
  of the \<open>2 ^ 32\<close>-th work item; and from the return of \<open>sync_worker_threads\<close> on, as long
  as no step pushes, the two counters are equal.
\<close>

theorem counters_monotone_and_barrier:
  assumes "main_start invoc = Inr p0" and "replay_run p0 pushed taken p"
    and "length pushed < 2 ^ 32"
  shows "unat (queued_count (snd p)) = length pushed \<and>
     completed_count (snd p) \<le> queued_count (snd p) \<and>
     (\<forall>p'. step p p' \<and> length (pushed @ pushed_by p p') < 2 ^ 32 \<longrightarrow>
        queued_count (snd p) \<le> queued_count (snd p') \<and>
        completed_count (snd p) \<le> completed_count (snd p')) \<and>
     (\<forall>env r rest p1 p2.
        fst p = Sync # rest \<and> driver_step env r p = Some p1 \<and> no_push_step\<^sup>*\<^sup>* p1 p2 \<longrightarrow>
          reachable p0 p2 \<and> queued_count (snd p2) = completed_count (snd p2))"
proof -
  let ?n = "length pushed"
  have inv: "pushes_counted ?n p"
    using pushes_counted_run[OF pushes_counted_main_start[OF assms(1)] assms(2,3)] .
  then have q: "unat (queued_count (snd p)) = ?n"
    and c: "unat (completed_count (snd p)) + outstanding (snd p) = ?n"
    by (simp_all add: pushes_counted_def)
  have le: "completed_count (snd p) \<le> queued_count (snd p)"
    using q c by (simp add: word_le_nat_alt)
  have reach: "reachable p0 p" using assms(2) by (rule replay_run_reachable)
  have mono: "queued_count (snd p) \<le> queued_count (snd p') \<and>
        completed_count (snd p) \<le> completed_count (snd p')"
    if st: "step p p'" and bound: "length (pushed @ pushed_by p p') < 2 ^ 32" for p'
    using st
  proof (cases rule: step.cases)
    case (main_thread env r)
    obtain d s d' s' where [simp]: "p = (d, s)" "p' = (d', s')"
      by (cases p, cases p') auto
    from inv have "pushes_counted ?n (d, s)" by simp
    from pushes_counted_driver_step(2,3)[OF this, of env r d' s'] main_thread bound
    show ?thesis by simp
  next
    case (worker_thread w r s s' d)
    from inv worker_thread(1) have "pushes_counted ?n (d, s)" by simp
    from pushes_counted_worker_step(2,3)[OF this assms(3) worker_thread(3)] worker_thread(1,2)
    show ?thesis by simp
  qed
  have barrier: "reachable p0 p2 \<and> queued_count (snd p2) = completed_count (snd p2)"
    if at_sync: "fst p = Sync # rest" and ret: "driver_step env r p = Some p1"
      and quiet: "no_push_step\<^sup>*\<^sup>* p1 p2"
    for env r rest p1 p2
  proof -
    obtain s where p: "p = (Sync # rest, s)" using at_sync by (cases p) auto
    from ret have eq: "queued_count s = completed_count s" and p1: "p1 = (rest, s)"
      by (auto simp: p split: if_splits)
    have st: "step p p1" using ret by (rule step.main_thread)
    with reach have r1: "reachable p0 p1" by (rule reachable.next_step)
    have "outstanding (snd p1) = 0"
      using q c eq by (simp add: p p1)
    from no_push_run_idle[OF quiet this r1] eq show ?thesis
      by (simp add: p1)
  qed
  show ?thesis using q le mono barrier by blast
qed

section \<open>The filter in a run\<close>

lemma hashes_of_append:
  "hashes_of t (xs @ ys) = hashes_of t xs \<union> hashes_of t ys"
  by (auto simp: hashes_of_def)

lemma hashes_of_Cons:
  "hashes_of t (i # xs) = (if tag i = t then {hash i} else {}) \<union> hashes_of t xs"
  by (auto simp: hashes_of_def)

lemma hashes_of_Nil: "hashes_of t [] = {}"
  by (simp add: hashes_of_def)

lemma passing_graphics_Cons:
  "passing_graphics s0 (a # d) =
     {h \<in> set (record_hash RESOURCE_GRAPHICS_PIPELINE a). graphics_filter_passes s0 h} \<union>
     passing_graphics s0 d"
  by (auto simp: passing_graphics_def replayed_hashes_def)

lemma passing_graphics_Nil: "passing_graphics s0 [] = {}"
  by (simp add: passing_graphics_def replayed_hashes_def)

lemma graphics_filter_passes_cong:
  assumes "filter_graphics s = filter_graphics s0" and "filter_compute s = filter_compute s0"
  shows "graphics_filter_passes s h = graphics_filter_passes s0 h"
  using assms by (simp add: graphics_filter_passes_def)

text \<open>The graphics hash that an action of the main thread pushes, if it pushes one.\<close>

lemma passing_record_push:
  assumes "is_push_action s (Parse t h (ParseCalls info out))"
    and "filter_graphics s = filter_graphics s0" and "filter_compute s = filter_compute s0"
  shows "{x \<in> set (record_hash RESOURCE_GRAPHICS_PIPELINE (Parse t h (ParseCalls info out))).
            graphics_filter_passes s0 x} =
         hashes_of RESOURCE_GRAPHICS_PIPELINE [work_item_for t h info out]"
  using assms graphics_filter_passes_cong[OF assms(2,3), of h]
  by (auto simp: hashes_of_def work_item_for_def)

lemma passing_record_skip:
  assumes "\<not> is_push_action s a"
    and "filter_graphics s = filter_graphics s0" and "filter_compute s = filter_compute s0"
  shows "{x \<in> set (record_hash RESOURCE_GRAPHICS_PIPELINE a). graphics_filter_passes s0 x} = {}"
proof (cases a)
  case (Parse t h p)
  show ?thesis
  proof (cases p)
    case ParseThrows
    with Parse show ?thesis by simp
  next
    case (ParseCalls info out)
    with Parse assms(1) graphics_filter_passes_cong[OF assms(2,3), of h] show ?thesis
      by auto
  qed
qed simp_all

lemma filter_inv_worker_step:
  assumes "filter_inv p0 taken (d, s)" and "worker_step w r s = Some s'"
  shows "filter_inv p0 (taken @ taken_by w s) (d, s')"
proof -
  have "hashes_of RESOURCE_GRAPHICS_PIPELINE (taken @ taken_by w s) \<union>
      hashes_of RESOURCE_GRAPHICS_PIPELINE (pipeline_work_queue s') =
      hashes_of RESOURCE_GRAPHICS_PIPELINE taken \<union>
      hashes_of RESOURCE_GRAPHICS_PIPELINE (pipeline_work_queue s)"
    using taken_by_cases[OF assms(2)]
    by (metis hashes_of_append sup_assoc)
  with assms(1) worker_step_filters[OF assms(2)] show ?thesis
    by (simp add: filter_inv_def)
qed

lemma filter_inv_driver_step:
  assumes "filter_inv p0 taken (d, s)" and "driver_step env r (d, s) = Some (d', s')"
  shows "filter_inv p0 taken (d', s')"
proof -
  let ?T = "hashes_of RESOURCE_GRAPHICS_PIPELINE taken"
  let ?P0 = "passing_graphics (snd p0) (fst p0)"
  from assms(1) have f: "filter_graphics s = filter_graphics (snd p0)"
      "filter_compute s = filter_compute (snd p0)"
    and sub: "?T \<union> hashes_of RESOURCE_GRAPHICS_PIPELINE (pipeline_work_queue s) \<union>
       passing_graphics (snd p0) d \<subseteq> ?P0"
    and sup: "d \<noteq> [] \<longrightarrow> ?P0 \<subseteq> ?T \<union>
       hashes_of RESOURCE_GRAPHICS_PIPELINE (pipeline_work_queue s) \<union>
       passing_graphics (snd p0) d"
    by (simp_all add: filter_inv_def)
  from assms(2) show ?thesis
  proof (cases rule: driver_step_cases)
    case (push t h info out)
    have "hashes_of RESOURCE_GRAPHICS_PIPELINE (pipeline_work_queue s') \<union>
        passing_graphics (snd p0) d' =
        hashes_of RESOURCE_GRAPHICS_PIPELINE (pipeline_work_queue s) \<union>
        passing_graphics (snd p0) d"
      unfolding push(1,3) passing_graphics_Cons hashes_of_append
        passing_record_push[OF push(9) f]
      by blast
    then have "?T \<union> hashes_of RESOURCE_GRAPHICS_PIPELINE (pipeline_work_queue s') \<union>
        passing_graphics (snd p0) d' =
        ?T \<union> hashes_of RESOURCE_GRAPHICS_PIPELINE (pipeline_work_queue s) \<union>
        passing_graphics (snd p0) d"
      by blast
    with sub sup push(1,10,11) f show ?thesis
      by (simp add: filter_inv_def)
  next
    case (skip a)
    have "passing_graphics (snd p0) d' = passing_graphics (snd p0) d"
      unfolding skip(1) passing_graphics_Cons passing_record_skip[OF skip(3) f] by simp
    with sub sup skip(1,4,10,11) f show ?thesis
      by (simp add: filter_inv_def)
  next
    case sync
    have "passing_graphics (snd p0) d' = passing_graphics (snd p0) d"
      unfolding sync(1) passing_graphics_Cons by simp
    with sub sup sync f show ?thesis
      by (simp add: filter_inv_def)
  next
    case (leave e rest)
    with sub f show ?thesis
      by (simp add: filter_inv_def passing_graphics_Nil)
  qed
qed

lemma filter_inv_run:
  assumes "pipeline_work_queue (snd p0) = []" and "replay_run p0 pushed taken p"
  shows "filter_inv p0 taken p"
  using assms(2)
proof (induction rule: replay_run.induct)
  case run_start
  show ?case using assms(1) by (simp add: filter_inv_def hashes_of_Nil)
next
  case (run_main pushed taken p env r p')
  obtain d s d' s' where [simp]: "p = (d, s)" "p' = (d', s')"
    by (cases p, cases p') auto
  from run_main filter_inv_driver_step[of p0 taken d s env r d' s'] show ?case by simp
next
  case (run_worker pushed taken d s w r s')
  then show ?case by (intro filter_inv_worker_step)
qed

subsection \<open>The records that the main thread replays\<close>

lemma replayed_hashes_append:
  "replayed_hashes t (xs @ ys) = replayed_hashes t xs \<union> replayed_hashes t ys"
  by (simp add: replayed_hashes_def)

lemma replayed_hashes_Cons:
  "replayed_hashes t (a # d) = set (record_hash t a) \<union> replayed_hashes t d"
  by (simp add: replayed_hashes_def)

lemma record_hash_other:
  assumes "parse_tag x \<noteq> Some t"
  shows "record_hash t x = []"
  using assms by (cases "(t, x)" rule: record_hash.cases) simp_all

lemma replayed_hashes_other:
  assumes "\<forall>x \<in> set d. parse_tag x \<noteq> Some t"
  shows "replayed_hashes t d = {}"
  using assms by (simp add: replayed_hashes_def record_hash_other)

lemma play_entries_hashes:
  "snd (play_entries t es) \<Longrightarrow>
   replayed_hashes t (fst (play_entries t es)) = set (concat (map entry_hash es))"
proof (induction t es rule: play_entries.induct)
  case (1 t)
  then show ?case by (simp add: replayed_hashes_def)
next
  case (2 t h es)
  then show ?case by simp
next
  case (3 t h p es)
  then show ?case
    by (cases p) (auto simp: replayed_hashes_Cons split: prod.splits)
qed

lemma category_actions_hashes:
  assumes "category_completes a t"
  shows "replayed_hashes t (category_actions a t) = archive_hashes a t"
  using assms play_entries_hashes[of t]
  by (auto simp: category_completes_def category_actions_def archive_hashes_def
      split: hash_list.splits)

lemma play_tags_actions:
  "x \<in> set (play_tags a ts) \<Longrightarrow> parse_tag x = None \<or> parse_tag x \<in> Some ` set ts"
proof (induction ts)
  case Nil
  then show ?case by auto
next
  case (Cons t ts)
  show ?case
  proof (cases "a t")
    case HashListFailed
    with Cons.prems show ?thesis by auto
  next
    case (HashList es)
    obtain acts ok where pe: "play_entries t es = (acts, ok)" by (cases "play_entries t es")
    have acts: "parse_tag y = Some t \<or> y = Return EXIT_FAILURE" if "y \<in> set acts" for y
      using play_entries_actions[of y t es] that pe by simp
    from Cons.prems HashList pe
    have "x \<in> set acts \<or> x = Sync \<or> x \<in> set (play_tags a ts)"
      by (cases ok) (auto split: if_splits)
    then show ?thesis
      using acts[of x] Cons.IH by auto
  qed
qed

lemma replayed_graphics_of_script:
  assumes "list_all (category_completes a) categories_before_barrier"
    and "category_completes a RESOURCE_GRAPHICS_PIPELINE"
  shows "replayed_hashes RESOURCE_GRAPHICS_PIPELINE (play_tags a playback_order) =
     archive_hashes a RESOURCE_GRAPHICS_PIPELINE"
proof -
  let ?g = RESOURCE_GRAPHICS_PIPELINE
  have before: "replayed_hashes ?g
      (concat (map (category_actions a) categories_before_barrier)) = {}"
  proof (rule replayed_hashes_other, rule ballI)
    fix x assume "x \<in> set (concat (map (category_actions a) categories_before_barrier))"
    then obtain t where t: "t \<in> set categories_before_barrier" "x \<in> set (category_actions a t)"
      by auto
    from t(1) assms(1) have "category_completes a t" by (simp add: list_all_iff)
    from category_actions_parse[OF this t(2)] t(1) show "parse_tag x \<noteq> Some ?g"
      by (auto simp: categories_before_barrier_def)
  qed
  have compute: "replayed_hashes ?g (play_tags a [RESOURCE_COMPUTE_PIPELINE]) = {}"
  proof (rule replayed_hashes_other, rule ballI)
    fix x assume "x \<in> set (play_tags a [RESOURCE_COMPUTE_PIPELINE])"
    from play_tags_actions[OF this] show "parse_tag x \<noteq> Some ?g" by auto
  qed
  have "play_tags a pipeline_categories =
      category_actions a ?g @ play_tags a [RESOURCE_COMPUTE_PIPELINE]"
    using play_tags_completing[OF assms(2), of "[RESOURCE_COMPUTE_PIPELINE]"]
    by (simp add: pipeline_categories_def)
  then show ?thesis
    unfolding play_tags_before_barrier[OF assms(1)]
    by (simp add: replayed_hashes_append replayed_hashes_Cons before compute
        category_actions_hashes[OF assms(2)] del: play_tags.simps)
qed

lemma passing_graphics_filter:
  assumes "filter_graphics s \<noteq> {}"
  shows "passing_graphics s d = filter_graphics s \<inter> replayed_hashes RESOURCE_GRAPHICS_PIPELINE d"
  using assms by (auto simp: passing_graphics_def graphics_filter_passes_def)

lemma passing_graphics_none:
  assumes "replayed_hashes RESOURCE_GRAPHICS_PIPELINE d = {}"
  shows "passing_graphics s (a # d) =
     {h \<in> set (record_hash RESOURCE_GRAPHICS_PIPELINE a). graphics_filter_passes s h}"
  using assms by (auto simp: passing_graphics_def replayed_hashes_Cons)

lemma idle_queue_empty:
  assumes "pushes_counted n p" and "queued_count (snd p) = completed_count (snd p)"
  shows "pipeline_work_queue (snd p) = []"
  using assms by (auto simp: pushes_counted_def outstanding_def)

lemma taken_at_barrier:
  assumes start: "main_start invoc = Inr p0" and run: "replay_run p0 pushed taken p"
    and N: "length pushed < 2 ^ 32"
    and at_sync: "fst p = Sync # rest" and ret: "driver_step env r p = Some p'"
    and rest: "replayed_hashes RESOURCE_GRAPHICS_PIPELINE rest = {}"
    and inv: "filter_inv p0 taken p"
  shows "hashes_of RESOURCE_GRAPHICS_PIPELINE taken = passing_graphics (snd p0) (fst p0)"
proof -
  obtain s where p: "p = (Sync # rest, s)" using at_sync by (cases p) auto
  from ret have eq: "queued_count (snd p) = completed_count (snd p)"
    by (auto simp: p split: if_splits)
  have "pushes_counted (length pushed) p"
    using pushes_counted_run[OF pushes_counted_main_start[OF start] run N] .
  from idle_queue_empty[OF this eq] have q: "pipeline_work_queue (snd p) = []" .
  have pend: "passing_graphics (snd p0) (Sync # rest) = {}"
    unfolding passing_graphics_none[OF rest] by simp
  from inv show ?thesis
    unfolding filter_inv_def q at_sync pend hashes_of_Nil by auto
qed

subsection \<open>A run with a filter\<close>

lemma filtered_invocation_locals:
  "foldl cli_callback (initial_locals (hardware_concurrency filtered_invocation))
      (cli_calls filtered_invocation) =
     \<lparr> json_path = ''db.foz'',
       replayer_opts = \<lparr> opt_pipeline_cache = False, on_disk_pipeline_cache_path = [],
                         num_threads = 1, opt_loop_count = 1 \<rparr>,
       main_filter_graphics = {0xC},
       main_filter_compute = {},
       is_ended_state = False \<rparr>"
  by (simp add: filtered_invocation_def initial_locals_def)

lemma play_tags_filtered_archive:
  "play_tags filtered_archive playback_order = filtered_script"
  by (simp add: playback_order_def filtered_archive_def filtered_script_def)

lemma main_start_filtered_invocation:
  "main_start filtered_invocation = Inr (filtered_script, filtered_start)"
proof -
  have a: "the_archive filtered_invocation = filtered_archive" "prepare_ok filtered_invocation"
    "cli_parse_ok filtered_invocation"
    by (simp_all add: filtered_invocation_def)
  show ?thesis
    unfolding main_start_def filtered_invocation_locals Let_def
    by (simp add: a play_tags_filtered_archive filtered_start_def)
qed

lemma filtered_start_facts:
  "queued_count filtered_start = 0" "completed_count filtered_start = 0"
  "pipeline_work_queue filtered_start = []" "thread_pool filtered_start = [Waiting]"
  "loop_count filtered_start = 1" "\<not> shutting_down filtered_start"
  "filter_graphics filtered_start = {0xC}" "filter_compute filtered_start = {}"
  "graphics_filter_passes filtered_start 0xC" "\<not> graphics_filter_passes filtered_start 0xD"
  "\<not> compute_filter_passes filtered_start 0xC"
  by (simp_all add: filtered_start_def ThreadedReplayer_new_def graphics_filter_passes_def
      compute_filter_passes_def)

lemma filtered_pushed_facts:
  "queued_count (snd filtered_pushed) = 1" "completed_count (snd filtered_pushed) = 0"
  "pipeline_work_queue (snd filtered_pushed) = [example_gp_item]"
  "thread_pool (snd filtered_pushed) = [Waiting]"
  "loop_count (snd filtered_pushed) = 1" "\<not> shutting_down (snd filtered_pushed)"
  "\<not> graphics_filter_passes (snd filtered_pushed) 0xD"
  by (simp_all add: filtered_pushed_def enqueue_create_graphics_pipeline_result
      filtered_start_facts example_gp_item_def graphics_filter_passes_def)

lemma filtered_skipped_facts:
  "queued_count (snd filtered_skipped) = 1" "completed_count (snd filtered_skipped) = 0"
  "pipeline_work_queue (snd filtered_skipped) = [example_gp_item]"
  "thread_pool (snd filtered_skipped) = [Waiting]"
  "loop_count (snd filtered_skipped) = 1" "\<not> shutting_down (snd filtered_skipped)"
  "output_slots (snd filtered_skipped) 3 = VK_NULL_HANDLE"
  by (simp_all add: filtered_skipped_def enqueue_create_graphics_pipeline_result
      filtered_pushed_facts)

lemma example_gp_item_facts:
  "tag example_gp_item = RESOURCE_GRAPHICS_PIPELINE" "hash example_gp_item = 0xC"
  "has_loop (tag example_gp_item)"
  by (simp_all add: example_gp_item_def work_item_for_def has_loop_def)

lemma filtered_created_facts:
  "queued_count (snd filtered_created) = 1" "completed_count (snd filtered_created) = 0"
  "pipeline_work_queue (snd filtered_created) = []"
  "thread_pool (snd filtered_created) = [Working example_gp_item 1]"
  "loop_count (snd filtered_created) = 1" "\<not> shutting_down (snd filtered_created)"
  by (simp_all add: filtered_created_def filtered_popped_def loop_body_frame
      filtered_skipped_facts)

lemma filtered_completed_facts:
  "fst filtered_completed = [Sync, Report, Return EXIT_SUCCESS]"
  "queued_count (snd filtered_completed) = 1" "completed_count (snd filtered_completed) = 1"
  "pipeline_work_queue (snd filtered_completed) = []"
  "thread_pool (snd filtered_completed) = [Waiting]"
  by (simp_all add: filtered_completed_def mark_completed_def filtered_created_facts
      filtered_skipped_def)

text \<open>The steps of that run.\<close>

lemma filtered_steps:
  "driver_step example_env example_success (filtered_script, filtered_start)
     = Some (tl filtered_script, filtered_start)"
  "driver_step example_env example_success (tl filtered_script, filtered_start)
     = Some filtered_pushed"
  "driver_step example_env example_success filtered_pushed = Some filtered_skipped"
  "worker_step 0 example_success (snd filtered_skipped) = Some (snd filtered_popped)"
  "worker_step 0 example_success (snd filtered_popped) = Some (snd filtered_created)"
  "worker_step 0 example_success (snd filtered_created) = Some (snd filtered_completed)"
  "driver_step example_env example_success filtered_completed = Some filtered_synced"
  "driver_step example_env example_success filtered_synced = Some filtered_reported"
proof -
  show "driver_step example_env example_success (filtered_script, filtered_start)
     = Some (tl filtered_script, filtered_start)"
    by (simp add: filtered_script_def filtered_start_facts)
  show "driver_step example_env example_success (tl filtered_script, filtered_start)
     = Some filtered_pushed"
    by (simp add: filtered_script_def replay_record_def filtered_pushed_def split: prod.splits)
  show "driver_step example_env example_success filtered_pushed = Some filtered_skipped"
    by (simp add: filtered_pushed_def replay_record_def filtered_skipped_def split: prod.splits)
  show "worker_step 0 example_success (snd filtered_skipped) = Some (snd filtered_popped)"
    by (simp add: worker_step_def filtered_skipped_facts filtered_popped_def)
  show "worker_step 0 example_success (snd filtered_popped) = Some (snd filtered_created)"
    by (simp add: worker_step_def filtered_popped_def filtered_skipped_facts
        filtered_created_def example_gp_item_facts has_loop_def)
  show "worker_step 0 example_success (snd filtered_created) = Some (snd filtered_completed)"
    by (simp add: worker_step_def filtered_created_facts filtered_completed_def)
  have "driver_step example_env example_success
      (fst filtered_completed, snd filtered_completed) = Some filtered_synced"
    unfolding filtered_completed_facts(1)
    by (simp add: filtered_completed_facts filtered_synced_def)
  then show "driver_step example_env example_success filtered_completed = Some filtered_synced"
    by simp
  show "driver_step example_env example_success filtered_synced = Some filtered_reported"
    by (simp add: filtered_synced_def filtered_reported_def)
qed

lemma run_filtered_skipped:
  "replay_run (filtered_script, filtered_start) [example_gp_item] [] filtered_skipped"
proof -
  let ?p0 = "(filtered_script, filtered_start)"
  have pb: "pushed_by ?p0 (tl filtered_script, filtered_start) = []"
    "pushed_by (tl filtered_script, filtered_start) filtered_pushed = [example_gp_item]"
    "pushed_by filtered_pushed filtered_skipped = []"
    by (simp_all add: pushed_by_def filtered_start_facts filtered_pushed_facts
        filtered_skipped_facts)
  note r1 = run_main[OF run_start[of ?p0] filtered_steps(1)]
  note r2 = run_main[OF r1 filtered_steps(2)]
  note r3 = run_main[OF r2 filtered_steps(3)]
  from r3 show ?thesis by (simp add: pb)
qed

lemma run_filtered_created:
  "replay_run (filtered_script, filtered_start) [example_gp_item] [example_gp_item]
     filtered_created"
proof -
  let ?p0 = "(filtered_script, filtered_start)"
  have r3: "replay_run ?p0 [example_gp_item] [] (fst filtered_skipped, snd filtered_skipped)"
    using run_filtered_skipped by simp
  have t: "taken_by 0 (snd filtered_skipped) = [example_gp_item]"
    "taken_by 0 (snd filtered_popped) = []"
    by (simp_all add: taken_by_def filtered_skipped_facts filtered_popped_def)
  note r4 = run_worker[OF r3 filtered_steps(4)]
  note r5 = run_worker[OF r4 filtered_steps(5)]
  from r5 show ?thesis by (simp add: t filtered_created_def)
qed

lemma run_filtered_completed:
  "replay_run (filtered_script, filtered_start) [example_gp_item] [example_gp_item]
     filtered_completed"
proof -
  let ?p0 = "(filtered_script, filtered_start)"
  have r5: "replay_run ?p0 [example_gp_item] [example_gp_item]
      (fst filtered_skipped, snd filtered_created)"
    using run_filtered_created by (simp add: filtered_created_def)
  have t: "taken_by 0 (snd filtered_created) = []"
    by (simp add: taken_by_def filtered_created_facts)
  from run_worker[OF r5 filtered_steps(6)] show ?thesis
    by (simp add: t filtered_completed_def)
qed

lemma filtered_no_push_run: "no_push_step\<^sup>*\<^sup>* filtered_synced filtered_reported"
proof -
  have "step filtered_synced filtered_reported"
    using filtered_steps(8) by (rule step.main_thread)
  then have "no_push_step filtered_synced filtered_reported"
    by (simp add: no_push_step_def filtered_synced_def filtered_reported_def)
  then show ?thesis by (rule r_into_rtranclp)
qed

subsection \<open>The filter restriction\<close>

text \<open>
  Claim C2, amended. The graphics-pipeline enqueue pushes a work item (and counts it)
  exactly when both filters are empty or the hash is in \<open>filter_graphics\<close>; otherwise it
  only sets the caller's output slot to the null handle, so nothing is queued and no
  registry entry is made. The compute-pipeline enqueue does the same with
  \<open>filter_compute\<close>. Hence, in a run with a non-empty \<open>filter_graphics\<close>, every
  graphics-pipeline hash that a worker has taken from the queue is in \<open>filter_graphics\<close>
  and is the hash of a graphics record that the main thread replays; and when
  \<open>sync_worker_threads\<close> returns with no graphics record left to replay (the final
  barrier) and fewer than \<open>2 ^ 32\<close> work items have been pushed, the graphics-pipeline
  hashes that workers have taken are exactly the hashes in \<open>filter_graphics\<close> of the
  replayed graphics records. When the categories up to the graphics pipelines are read to their end, the
  replayed graphics records are those of the archive that parse.
\<close>

theorem pipeline_filter_restriction:
  "(graphics_filter_passes s h \<longrightarrow>
      enqueue_create_graphics_pipeline h info out s =
        (True, s\<lparr>graphics_pipelines := subscript (graphics_pipelines s) h,
                  pipeline_work_queue := pipeline_work_queue s
                     @ [work_item_for RESOURCE_GRAPHICS_PIPELINE h info out],
                  queued_count := queued_count s + 1\<rparr>)) \<and>
   (\<not> graphics_filter_passes s h \<longrightarrow>
      enqueue_create_graphics_pipeline h info out s =
        (True, s\<lparr>output_slots := (output_slots s)(out := VK_NULL_HANDLE)\<rparr>)) \<and>
   (compute_filter_passes s h \<longrightarrow>
      enqueue_create_compute_pipeline h info out s =
        (True, s\<lparr>compute_pipelines := subscript (compute_pipelines s) h,
                  pipeline_work_queue := pipeline_work_queue s
                     @ [work_item_for RESOURCE_COMPUTE_PIPELINE h info out],
                  queued_count := queued_count s + 1\<rparr>)) \<and>
   (\<not> compute_filter_passes s h \<longrightarrow>
      enqueue_create_compute_pipeline h info out s =
        (True, s\<lparr>output_slots := (output_slots s)(out := VK_NULL_HANDLE)\<rparr>)) \<and>
   (main_start invoc = Inr p0 \<and> replay_run p0 pushed taken p \<and>
    filter_graphics (snd p0) \<noteq> {} \<longrightarrow>
      hashes_of RESOURCE_GRAPHICS_PIPELINE taken \<subseteq>
        filter_graphics (snd p0) \<inter> replayed_hashes RESOURCE_GRAPHICS_PIPELINE (fst p0) \<and>
      (length pushed < 2 ^ 32 \<and> fst p = Sync # rest \<and>
       driver_step env r p = Some p' \<and>
       replayed_hashes RESOURCE_GRAPHICS_PIPELINE rest = {} \<longrightarrow>
         hashes_of RESOURCE_GRAPHICS_PIPELINE taken =
           filter_graphics (snd p0) \<inter> replayed_hashes RESOURCE_GRAPHICS_PIPELINE (fst p0)) \<and>
      (prepare_ok invoc \<and>
       list_all (category_completes (the_archive invoc)) categories_before_barrier \<and>
       category_completes (the_archive invoc) RESOURCE_GRAPHICS_PIPELINE \<longrightarrow>
         replayed_hashes RESOURCE_GRAPHICS_PIPELINE (fst p0) =
           archive_hashes (the_archive invoc) RESOURCE_GRAPHICS_PIPELINE))"
proof -
  let ?g = RESOURCE_GRAPHICS_PIPELINE
  have run: "hashes_of ?g taken \<subseteq> filter_graphics (snd p0) \<inter> replayed_hashes ?g (fst p0) \<and>
      (length pushed < 2 ^ 32 \<and> fst p = Sync # rest \<and>
       driver_step env r p = Some p' \<and> replayed_hashes ?g rest = {} \<longrightarrow>
         hashes_of ?g taken = filter_graphics (snd p0) \<inter> replayed_hashes ?g (fst p0)) \<and>
      (prepare_ok invoc \<and>
       list_all (category_completes (the_archive invoc)) categories_before_barrier \<and>
       category_completes (the_archive invoc) ?g \<longrightarrow>
         replayed_hashes ?g (fst p0) = archive_hashes (the_archive invoc) ?g)"
    if start: "main_start invoc = Inr p0" and run: "replay_run p0 pushed taken p"
      and nonempty: "filter_graphics (snd p0) \<noteq> {}"
  proof -
    obtain o1 g c where "snd p0 = ThreadedReplayer_new o1 g c"
      using main_start_replayer[OF start] by blast
    then have "pipeline_work_queue (snd p0) = []"
      by (simp add: ThreadedReplayer_new_def)
    from filter_inv_run[OF this run] have inv: "filter_inv p0 taken p" .
    note pass = passing_graphics_filter[OF nonempty, of "fst p0"]
    have sound: "hashes_of ?g taken \<subseteq> filter_graphics (snd p0) \<inter> replayed_hashes ?g (fst p0)"
      using inv unfolding filter_inv_def pass by blast
    have complete: "hashes_of ?g taken = filter_graphics (snd p0) \<inter> replayed_hashes ?g (fst p0)"
      if "length pushed < 2 ^ 32" "fst p = Sync # rest"
        "driver_step env r p = Some p'" "replayed_hashes ?g rest = {}"
      using taken_at_barrier[OF start run that inv] pass by simp
    have archive: "replayed_hashes ?g (fst p0) = archive_hashes (the_archive invoc) ?g"
      if "prepare_ok invoc"
        "list_all (category_completes (the_archive invoc)) categories_before_barrier"
        "category_completes (the_archive invoc) ?g"
      using main_start_script[OF start] that(1) replayed_graphics_of_script[OF that(2,3)]
      by simp
    from sound complete archive show ?thesis by blast
  qed
  have enqueue: "(graphics_filter_passes s h \<longrightarrow>
      enqueue_create_graphics_pipeline h info out s =
        (True, s\<lparr>graphics_pipelines := subscript (graphics_pipelines s) h,
                  pipeline_work_queue := pipeline_work_queue s
                     @ [work_item_for RESOURCE_GRAPHICS_PIPELINE h info out],
                  queued_count := queued_count s + 1\<rparr>)) \<and>
   (\<not> graphics_filter_passes s h \<longrightarrow>
      enqueue_create_graphics_pipeline h info out s =
        (True, s\<lparr>output_slots := (output_slots s)(out := VK_NULL_HANDLE)\<rparr>)) \<and>
   (compute_filter_passes s h \<longrightarrow>
      enqueue_create_compute_pipeline h info out s =
        (True, s\<lparr>compute_pipelines := subscript (compute_pipelines s) h,
                  pipeline_work_queue := pipeline_work_queue s
                     @ [work_item_for RESOURCE_COMPUTE_PIPELINE h info out],
                  queued_count := queued_count s + 1\<rparr>)) \<and>
   (\<not> compute_filter_passes s h \<longrightarrow>
      enqueue_create_compute_pipeline h info out s =
        (True, s\<lparr>output_slots := (output_slots s)(out := VK_NULL_HANDLE)\<rparr>))"
    by (simp add: enqueue_create_graphics_pipeline_result enqueue_create_compute_pipeline_result)
  from enqueue run show ?thesis by blast
qed

lemma filtered_archive_completes:
  "prepare_ok filtered_invocation"
  "the_archive filtered_invocation = filtered_archive"
  "list_all (category_completes filtered_archive) categories_before_barrier"
  "category_completes filtered_archive RESOURCE_GRAPHICS_PIPELINE"
  "archive_hashes filtered_archive RESOURCE_GRAPHICS_PIPELINE = {0xC, 0xD}"
  by (simp_all add: filtered_invocation_def categories_before_barrier_def
      category_completes_def filtered_archive_def archive_hashes_def)

theorem pipeline_filter_restriction_witness:
  "graphics_filter_passes filtered_start 0xC \<and>
   pipeline_work_queue (snd (enqueue_create_graphics_pipeline 0xC 2 2 filtered_start))
     = [work_item_for RESOURCE_GRAPHICS_PIPELINE 0xC 2 2] \<and>
   \<not> graphics_filter_passes filtered_start 0xD \<and>
   pipeline_work_queue (snd (enqueue_create_graphics_pipeline 0xD 3 3 filtered_start)) = [] \<and>
   output_slots (snd (enqueue_create_graphics_pipeline 0xD 3 3 filtered_start)) 3
     = VK_NULL_HANDLE \<and>
   \<not> compute_filter_passes filtered_start 0xC \<and>
   pipeline_work_queue (snd (enqueue_create_compute_pipeline 0xC 2 2 filtered_start)) = [] \<and>
   main_start filtered_invocation = Inr (filtered_script, filtered_start) \<and>
   replay_run (filtered_script, filtered_start) [example_gp_item] [example_gp_item]
     filtered_completed \<and>
   filter_graphics (snd (filtered_script, filtered_start)) = {0xC} \<and>
   length [example_gp_item] < (2 :: nat) ^ 32 \<and>
   fst filtered_completed = Sync # [Report, Return EXIT_SUCCESS] \<and>
   driver_step example_env example_success filtered_completed = Some filtered_synced \<and>
   replayed_hashes RESOURCE_GRAPHICS_PIPELINE [Report, Return EXIT_SUCCESS] = {} \<and>
   prepare_ok filtered_invocation \<and>
   list_all (category_completes (the_archive filtered_invocation)) categories_before_barrier \<and>
   category_completes (the_archive filtered_invocation) RESOURCE_GRAPHICS_PIPELINE \<and>
   archive_hashes (the_archive filtered_invocation) RESOURCE_GRAPHICS_PIPELINE = {0xC, 0xD} \<and>
   replayed_hashes RESOURCE_GRAPHICS_PIPELINE (fst (filtered_script, filtered_start))
     = {0xC, 0xD} \<and>
   hashes_of RESOURCE_GRAPHICS_PIPELINE [example_gp_item] = {0xC}"
proof -
  let ?p0 = "(filtered_script, filtered_start)"
  note f = filtered_start_facts
  note a = filtered_archive_completes
  have fg: "filter_graphics (snd ?p0) = {0xC}" "filter_graphics (snd ?p0) \<noteq> {}"
    by (simp_all add: f)
  have n: "length [example_gp_item] < (2 :: nat) ^ 32"
    by simp
  have rest: "replayed_hashes RESOURCE_GRAPHICS_PIPELINE [Report, Return EXIT_SUCCESS] = {}"
    by (simp add: replayed_hashes_def)
  note one = pipeline_filter_restriction[where s = filtered_start and h = "0xC" and info = 2
      and out = 2 and invoc = filtered_invocation and ?p0.0 = ?p0
      and pushed = "[example_gp_item]" and taken = "[example_gp_item]" and p = filtered_completed
      and rest = "[Report, Return EXIT_SUCCESS]" and env = example_env and r = example_success
      and p' = filtered_synced]
  note two = pipeline_filter_restriction[where s = filtered_start and h = "0xD" and info = 3
      and out = 3 and invoc = filtered_invocation and ?p0.0 = ?p0
      and pushed = "[]" and taken = "[]" and p = ?p0]
  have r1: "enqueue_create_graphics_pipeline 0xC 2 2 filtered_start =
      (True, filtered_start\<lparr>graphics_pipelines := subscript (graphics_pipelines filtered_start) 0xC,
                  pipeline_work_queue := pipeline_work_queue filtered_start
                     @ [work_item_for RESOURCE_GRAPHICS_PIPELINE 0xC 2 2],
                  queued_count := queued_count filtered_start + 1\<rparr>)"
    using one f(9) by blast
  have r2: "enqueue_create_graphics_pipeline 0xD 3 3 filtered_start =
      (True, filtered_start\<lparr>output_slots := (output_slots filtered_start)(3 := VK_NULL_HANDLE)\<rparr>)"
    using two f(10) by blast
  have r3: "enqueue_create_compute_pipeline 0xC 2 2 filtered_start =
      (True, filtered_start\<lparr>output_slots := (output_slots filtered_start)(2 := VK_NULL_HANDLE)\<rparr>)"
    using one f(11) by blast
  have q: "pipeline_work_queue (snd (enqueue_create_graphics_pipeline 0xC 2 2 filtered_start))
     = [work_item_for RESOURCE_GRAPHICS_PIPELINE 0xC 2 2]"
    "pipeline_work_queue (snd (enqueue_create_graphics_pipeline 0xD 3 3 filtered_start)) = []"
    "output_slots (snd (enqueue_create_graphics_pipeline 0xD 3 3 filtered_start)) 3
     = VK_NULL_HANDLE"
    "pipeline_work_queue (snd (enqueue_create_compute_pipeline 0xC 2 2 filtered_start)) = []"
    by (simp_all add: r1 r2 r3 f)
  from one main_start_filtered_invocation run_filtered_completed fg(2) n
    filtered_completed_facts(1) filtered_steps(7) rest
  have taken: "hashes_of RESOURCE_GRAPHICS_PIPELINE [example_gp_item] =
      filter_graphics (snd ?p0) \<inter> replayed_hashes RESOURCE_GRAPHICS_PIPELINE (fst ?p0)"
    by blast
  from one main_start_filtered_invocation run_filtered_completed fg(2) a(1)
    a(3,4)[folded a(2)]
  have arch: "replayed_hashes RESOURCE_GRAPHICS_PIPELINE (fst ?p0) =
      archive_hashes (the_archive filtered_invocation) RESOURCE_GRAPHICS_PIPELINE"
    by blast
  have rep: "replayed_hashes RESOURCE_GRAPHICS_PIPELINE (fst ?p0) = {0xC, 0xD}"
    unfolding arch a(2) by (rule a(5))
  have tk: "hashes_of RESOURCE_GRAPHICS_PIPELINE [example_gp_item] = {0xC}"
    unfolding taken rep fg(1) by simp
  show ?thesis
    using f(9,10,11) q main_start_filtered_invocation run_filtered_completed fg(1) n
      filtered_completed_facts(1) filtered_steps(7) rest a(1) a(3,4,5)[folded a(2)] rep tk
    by simp
qed

text \<open>
  The claim as stated has the hashes that reach a worker equal to the intersection in
  every run. With the same filter on an archive whose list of compute pipelines cannot
  be read, \<open>main\<close> pushes graphics pipeline 12 and then leaves; the worker finds
  \<open>shutting_down\<close> set and exits with the item still in the queue, and no thread can move
  any more.
\<close>

lemma main_start_aborted_invocation:
  "main_start aborted_invocation = Inr (aborted_script, filtered_start)"
proof -
  have l: "foldl cli_callback (initial_locals (hardware_concurrency aborted_invocation))
      (cli_calls aborted_invocation) =
     \<lparr> json_path = ''db.foz'',
       replayer_opts = \<lparr> opt_pipeline_cache = False, on_disk_pipeline_cache_path = [],
                         num_threads = 1, opt_loop_count = 1 \<rparr>,
       main_filter_graphics = {0xC},
       main_filter_compute = {},
       is_ended_state = False \<rparr>"
    by (simp add: aborted_invocation_def initial_locals_def)
  have a: "the_archive aborted_invocation = aborted_archive" "prepare_ok aborted_invocation"
    "cli_parse_ok aborted_invocation"
    by (simp_all add: aborted_invocation_def)
  have "play_tags aborted_archive playback_order = aborted_script"
    by (simp add: playback_order_def aborted_archive_def aborted_script_def)
  then show ?thesis
    unfolding main_start_def l Let_def
    by (simp add: a filtered_start_def)
qed

lemma run_aborted_final:
  "replay_run (aborted_script, filtered_start) [work_item_for RESOURCE_GRAPHICS_PIPELINE 0xC 2 2]
     [] aborted_final"
proof -
  let ?p0 = "(aborted_script, filtered_start)"
  have s1: "driver_step example_env example_success ?p0 = Some (tl aborted_script, filtered_start)"
    by (simp add: aborted_script_def filtered_start_facts)
  have s2: "driver_step example_env example_success (tl aborted_script, filtered_start)
      = Some aborted_pushed"
    by (simp add: aborted_script_def replay_record_def aborted_pushed_def split: prod.splits)
  have s3: "driver_step example_env example_success aborted_pushed = Some aborted_left"
    by (simp add: aborted_pushed_def aborted_left_def)
  have pool: "thread_pool (snd aborted_left) = [Waiting]" "shutting_down (snd aborted_left)"
    by (simp_all add: aborted_left_def aborted_pushed_def
        enqueue_create_graphics_pipeline_result filtered_start_facts)
  have s4: "worker_step 0 example_success (snd aborted_left) = Some (snd aborted_final)"
    by (simp add: worker_step_def pool aborted_final_def)
  have t: "taken_by 0 (snd aborted_left) = []"
    by (simp add: taken_by_def pool)
  have pb: "pushed_by ?p0 (tl aborted_script, filtered_start) = []"
    "pushed_by (tl aborted_script, filtered_start) aborted_pushed
       = [work_item_for RESOURCE_GRAPHICS_PIPELINE 0xC 2 2]"
    "pushed_by aborted_pushed aborted_left = []"
    by (simp_all add: pushed_by_def aborted_pushed_def aborted_left_def
        enqueue_create_graphics_pipeline_result filtered_start_facts)
  note r3 = run_main[OF run_main[OF run_main[OF run_start[of ?p0] s1] s2] s3]
  from r3 have "replay_run ?p0 [work_item_for RESOURCE_GRAPHICS_PIPELINE 0xC 2 2] []
      aborted_left"
    unfolding pb by simp
  then have "replay_run ?p0 [work_item_for RESOURCE_GRAPHICS_PIPELINE 0xC 2 2] []
      ([], snd aborted_left)"
    by (simp add: aborted_left_def)
  from run_worker[OF this s4] show ?thesis
    by (simp add: t aborted_final_def)
qed

lemma aborted_final_stuck: "\<not> step aborted_final p'"
proof
  assume "step aborted_final p'"
  then show False
  proof (cases rule: step.cases)
    case (main_thread env r)
    then show ?thesis by (simp add: aborted_final_def)
  next
    case (worker_thread w r s s' d)
    then have "thread_pool s = [Finished]" by (auto simp: aborted_final_def)
    with worker_thread(3) show ?thesis
      by (cases w) (simp_all add: worker_step_def)
  qed
qed

theorem filtered_pipeline_never_taken:
  "main_start aborted_invocation = Inr (aborted_script, filtered_start) \<and>
   filter_graphics filtered_start = {0xC} \<and>
   archive_hashes (the_archive aborted_invocation) RESOURCE_GRAPHICS_PIPELINE = {0xC} \<and>
   replayed_hashes RESOURCE_GRAPHICS_PIPELINE aborted_script = {0xC} \<and>
   replay_run (aborted_script, filtered_start)
     [work_item_for RESOURCE_GRAPHICS_PIPELINE 0xC 2 2] [] aborted_final \<and>
   (\<forall>p'. \<not> step aborted_final p') \<and>
   pipeline_work_queue (snd aborted_final) = [work_item_for RESOURCE_GRAPHICS_PIPELINE 0xC 2 2] \<and>
   hashes_of RESOURCE_GRAPHICS_PIPELINE [] \<noteq>
     filter_graphics filtered_start \<inter>
       archive_hashes (the_archive aborted_invocation) RESOURCE_GRAPHICS_PIPELINE \<and>
   hashes_of RESOURCE_GRAPHICS_PIPELINE [] \<noteq>
     filter_graphics filtered_start \<inter> replayed_hashes RESOURCE_GRAPHICS_PIPELINE aborted_script"
proof -
  have a: "archive_hashes (the_archive aborted_invocation) RESOURCE_GRAPHICS_PIPELINE = {0xC}"
    by (simp add: aborted_invocation_def aborted_archive_def archive_hashes_def)
  have r: "replayed_hashes RESOURCE_GRAPHICS_PIPELINE aborted_script = {0xC}"
    by (simp add: replayed_hashes_def aborted_script_def)
  have q: "pipeline_work_queue (snd aborted_final)
      = [work_item_for RESOURCE_GRAPHICS_PIPELINE 0xC 2 2]"
    by (simp add: aborted_final_def aborted_left_def aborted_pushed_def worker_exit_def
        enqueue_create_graphics_pipeline_result filtered_start_facts)
  show ?thesis
    using main_start_aborted_invocation filtered_start_facts(7) a r run_aborted_final
      aborted_final_stuck q
    by (simp add: hashes_of_Nil)
qed

section \<open>The counters in the run with a filter\<close>

theorem counters_monotone_and_barrier_witness:
  "main_start filtered_invocation = Inr (filtered_script, filtered_start) \<and>
   replay_run (filtered_script, filtered_start) [example_gp_item] [example_gp_item]
     filtered_created \<and>
   length [example_gp_item] < (2 :: nat) ^ 32 \<and>
   step filtered_created filtered_completed \<and>
   length ([example_gp_item] @ pushed_by filtered_created filtered_completed) < (2 :: nat) ^ 32 \<and>
   queued_count (snd filtered_created) = 1 \<and> completed_count (snd filtered_created) = 0 \<and>
   queued_count (snd filtered_completed) = 1 \<and> completed_count (snd filtered_completed) = 1 \<and>
   replay_run (filtered_script, filtered_start) [example_gp_item] [example_gp_item]
     filtered_completed \<and>
   fst filtered_completed = Sync # [Report, Return EXIT_SUCCESS] \<and>
   driver_step example_env example_success filtered_completed = Some filtered_synced \<and>
   no_push_step\<^sup>*\<^sup>* filtered_synced filtered_reported \<and>
   reachable (filtered_script, filtered_start) filtered_reported \<and>
   queued_count (snd filtered_reported) = completed_count (snd filtered_reported)"
proof -
  let ?p0 = "(filtered_script, filtered_start)"
  have n: "length [example_gp_item] < (2 :: nat) ^ 32" by simp
  have st: "step (fst filtered_skipped, snd filtered_created)
      (fst filtered_skipped, snd filtered_completed)"
    using filtered_steps(6) by (rule step.worker_thread)
  then have st': "step filtered_created filtered_completed"
    by (simp add: filtered_created_def filtered_completed_def)
  have pb: "pushed_by filtered_created filtered_completed = []"
    by (simp add: pushed_by_def filtered_created_facts filtered_completed_facts)
  then have n': "length ([example_gp_item] @ pushed_by filtered_created filtered_completed)
      < (2 :: nat) ^ 32"
    by simp
  note at_created =
    counters_monotone_and_barrier[OF main_start_filtered_invocation run_filtered_created n]
  note at_completed =
    counters_monotone_and_barrier[OF main_start_filtered_invocation run_filtered_completed n]
  from at_created have q1: "unat (queued_count (snd filtered_created)) = 1" by simp
  from at_created st' n' have mono:
    "queued_count (snd filtered_created) \<le> queued_count (snd filtered_completed) \<and>
     completed_count (snd filtered_created) \<le> completed_count (snd filtered_completed)"
    by blast
  from at_completed filtered_completed_facts(1) filtered_steps(7) filtered_no_push_run
  have b: "reachable ?p0 filtered_reported \<and>
      queued_count (snd filtered_reported) = completed_count (snd filtered_reported)"
    by blast
  show ?thesis
    using main_start_filtered_invocation run_filtered_created run_filtered_completed st' n' n
      filtered_completed_facts(1,2,3) filtered_created_facts(1,2) filtered_steps(7)
      filtered_no_push_run b
    by simp
qed

end
